theory Spec2Isabelle
  imports Main "HOL-Library.Word" "HOL-Library.Sublist" "HOL-Library.Product_Lexorder"
begin

section \<open>The data of span.go\<close>

text \<open>
  A non-nil \<open>*Span\<close> is the index of the span in the heap of spans, a non-nil
  \<open>*Trace\<close> the index of the trace in the heap of traces. Go has no dangling pointers, so
  the operations below are meant for references inside the heap; where the source tests a
  pointer against nil the model has an \<open>option\<close>. \<open>*Func\<close> and the observer are
  opaque: their code is outside span.go.
\<close>

type_synonym span_ref = nat
type_synonym trace_ref = nat
type_synonym func_ref = nat
type_synonym observer = nat

text \<open>Monotonic time in nanoseconds; \<open>finish.Sub(start)\<close> is the difference.\<close>

type_synonym time = int

text \<open>An \<open>error\<close> interface value (\<open>None\<close> is nil) and a recovered panic value.\<close>

type_synonym err = "string option"
type_synonym panic_value = string

text \<open>
  Keys and values of a \<open>context.Context\<close>. \<open>spanKey\<close> is the only constant of the
  unexported type \<open>ctxKey\<close>; every other key is an \<open>OtherKey\<close>. A value is nil, a
  \<open>*Span\<close> (which may be a nil pointer) or something else.
\<close>

datatype key = SpanKey | OtherKey nat

datatype iface = VNil | VSpan "span_ref option" | VOther nat

text \<open>
  A \<open>context.Context\<close> interface value: its dynamic type is \<open>*Span\<close> (the pointer may
  be nil), or it is another implementation, given by its \<open>Value\<close> method.
\<close>

datatype ctx = SpanCtx "span_ref option" | OtherCtx "key \<Rightarrow> iface"

record Annotation =
  Name :: string
  Value :: string

text \<open>
  A Go slice of annotations: a pointer to its backing array in the store of arrays, a
  length and a capacity. The nil slice has length and capacity 0.
\<close>

record slice =
  ptr :: nat
  len :: nat
  cap :: nat

definition nil_slice :: slice where
  "nil_slice = \<lparr>ptr = 0, len = 0, cap = 0\<rparr>"

text \<open>
  Modelled from the spec: \<open>spanBag\<close> is declared outside span.go. The spec gives it
  \<open>add\<close> (idempotent), \<open>remove\<close> (no-op if absent) and \<open>iterate\<close> (each distinct member
  once, order unspecified; the order of insertion is taken here).
\<close>

type_synonym spanBag = "span_ref list"

definition bag_Add :: "span_ref \<Rightarrow> spanBag \<Rightarrow> spanBag" where
  "bag_Add c b = (if c \<in> set b then b else b @ [c])"

definition bag_Remove :: "span_ref \<Rightarrow> spanBag \<Rightarrow> spanBag" where
  "bag_Remove c b = removeAll c b"

definition bag_Iterate :: "spanBag \<Rightarrow> span_ref list" where
  "bag_Iterate b = remdups b"

text \<open>
  The struct \<open>Span\<close>. The field \<open>f\<close> is \<open>func\<close> here, \<open>id\<close> is \<open>span_id\<close> and
  \<open>done\<close> is \<open>done'\<close>; \<open>mtx\<close> is not a field: taking and releasing it are events.
  \<open>trace\<close> is never nil in a span that \<open>newSpan\<close> built.
\<close>

record span =
  span_id :: "64 word"
  start :: time
  func :: func_ref
  trace :: trace_ref
  parent :: "span_ref option"
  args :: "string list"
  Context :: ctx
  done' :: bool
  orphaned :: bool
  children :: spanBag
  annotations :: slice

text \<open>
  Modelled from the spec: \<open>Trace\<close> is declared outside span.go. The spec gives a trace
  an optional observer.
\<close>

record trace_obj =
  trace_id :: "64 word"
  observer_of :: "observer option"

text \<open>
  What an operation does to the outside, in program order: taking and releasing a span's
  lock, and the calls into \<open>Func\<close> (\<open>f.start\<close>, \<open>f.end\<close>), the registry
  \<open>f.scope.r\<close> and the observer. The bodies of the callbacks are outside span.go; they
  are recorded, and taken not to touch a span or a trace. \<open>Visit\<close> is the callback that
  the caller of \<open>Children\<close> passes.
\<close>

datatype event =
    Lock span_ref
  | Unlock span_ref
  | FuncStart func_ref "func_ref option"
  | FuncEnd func_ref err bool time
  | ObserveTrace func_ref trace_ref
  | RootSpanStart span_ref
  | RootSpanEnd span_ref
  | OrphanedSpan span_ref
  | OrphanEnd span_ref
  | ObserverStart observer span_ref
  | ObserverFinish observer span_ref err bool time
  | Visit span_ref

text \<open>
  The state: the heap of spans, the heap of traces, the store of backing arrays, the
  events so far, and the slices that \<open>Annotations\<close> has returned to its callers.
\<close>

record state =
  spans :: "span list"
  traces :: "trace_obj list"
  arrays :: "Annotation list list"
  events :: "event list"
  handed_out :: "slice list"

definition init :: state where
  "init = \<lparr>spans = [], traces = [], arrays = [], events = [], handed_out = []\<rparr>"

definition emit :: "event \<Rightarrow> state \<Rightarrow> state" where
  "emit e st = st\<lparr>events := events st @ [e]\<rparr>"

definition upd_span :: "span_ref \<Rightarrow> (span \<Rightarrow> span) \<Rightarrow> state \<Rightarrow> state" where
  "upd_span s g st = st\<lparr>spans := (spans st)[s := g (spans st ! s)]\<rparr>"

section \<open>The span as a context\<close>

datatype error = NilDereference

text \<open>
  \<open>ctx.Value(key)\<close>, dispatched on the dynamic type. For a \<open>*Span\<close> it is the method
  \<open>Span.Value\<close>, which answers \<open>spanKey\<close> before it reads a field (so also on a nil
  pointer) and otherwise asks the context the span wraps. A chain of contexts that
  comes back to the same span does not return: the value is \<open>None\<close>.
\<close>

partial_function (option) ctx_Value :: "span list \<Rightarrow> ctx \<Rightarrow> key \<Rightarrow> (error + iface) option" where
  "ctx_Value h c k =
     (case c of
        OtherCtx g \<Rightarrow> Some (Inr (g k))
      | SpanCtx None \<Rightarrow> (if k = SpanKey then Some (Inr (VSpan None)) else Some (Inl NilDereference))
      | SpanCtx (Some s) \<Rightarrow>
          (if k = SpanKey then Some (Inr (VSpan (Some s))) else ctx_Value h (Context (h ! s)) k))"

definition Span_Value :: "span list \<Rightarrow> span_ref option \<Rightarrow> key \<Rightarrow> (error + iface) option" where
  "Span_Value h s k =
     (if k = SpanKey then Some (Inr (VSpan s))
      else (case s of None \<Rightarrow> Some (Inl NilDereference)
                    | Some r \<Rightarrow> ctx_Value h (Context (h ! r)) k))"

text \<open>The test that \<open>ctx\<close> holds a \<open>*Span\<close> and that the pointer is not nil.\<close>

definition as_span :: "ctx \<Rightarrow> span_ref option" where
  "as_span c = (case c of SpanCtx (Some s) \<Rightarrow> Some s | _ \<Rightarrow> None)"

text \<open>The test that \<open>ctx.Value(spanKey)\<close> holds a \<open>*Span\<close> and that the pointer is not nil.\<close>

definition value_span :: "span list \<Rightarrow> ctx \<Rightarrow> span_ref option" where
  "value_span h c =
     (case ctx_Value h c SpanKey of Some (Inr (VSpan (Some s))) \<Rightarrow> Some s | _ \<Rightarrow> None)"

definition SpanFromCtx :: "span list \<Rightarrow> ctx \<Rightarrow> span_ref option" where
  "SpanFromCtx h c =
     (case as_span c of
        Some s \<Rightarrow> Some s
      | None \<Rightarrow> (case value_span h c of Some s \<Rightarrow> Some s | None \<Rightarrow> None))"

section \<open>Orphaning and the child set\<close>

definition orphan :: "span_ref \<Rightarrow> state \<Rightarrow> state" where
  "orphan s st =
     (let st1 = emit (Lock s) st;
          st2 = (if \<not> done' (spans st1 ! s) \<and> \<not> orphaned (spans st1 ! s)
                 then emit (OrphanedSpan s) (upd_span s (\<lambda>x. x\<lparr>orphaned := True\<rparr>) st1)
                 else st1)
      in emit (Unlock s) st2)"

definition addChild :: "span_ref \<Rightarrow> span_ref \<Rightarrow> state \<Rightarrow> state" where
  "addChild s child st =
     (let st1 = emit (Lock s) st;
          st2 = upd_span s (\<lambda>x. x\<lparr>children := bag_Add child (children x)\<rparr>) st1;
          done_l = done' (spans st2 ! s);
          st3 = emit (Unlock s) st2
      in if done_l then orphan child st3 else st3)"

definition removeChild :: "span_ref \<Rightarrow> span_ref \<Rightarrow> state \<Rightarrow> state" where
  "removeChild s child st =
     (let st1 = emit (Lock s) st;
          st2 = upd_span s (\<lambda>x. x\<lparr>children := bag_Remove child (children x)\<rparr>) st1
      in emit (Unlock s) st2)"

section \<open>Starting and finishing a span\<close>

text \<open>
  Modelled from the spec: \<open>NewTrace\<close> and \<open>getObserver\<close> are declared outside span.go.
  A new trace has no observer yet; \<open>getObserver\<close> reads the trace's observer.
\<close>

definition NewTrace :: "64 word \<Rightarrow> state \<Rightarrow> trace_ref \<times> state" where
  "NewTrace i st =
     (length (traces st), st\<lparr>traces := traces st @ [\<lparr>trace_id = i, observer_of = None\<rparr>]\<rparr>)"

definition getObserver :: "state \<Rightarrow> trace_ref \<Rightarrow> observer option" where
  "getObserver st t = observer_of (traces st ! t)"

definition setObserver :: "trace_ref \<Rightarrow> observer option \<Rightarrow> state \<Rightarrow> state" where
  "setObserver t ob st = st\<lparr>traces := (traces st)[t := (traces st ! t)\<lparr>observer_of := ob\<rparr>]\<rparr>"

text \<open>
  The closure that \<open>newSpan\<close> returns. It closes over the span \<open>s\<close> and the variable
  \<open>observer\<close>; \<open>errptr\<close> is its argument (\<open>None\<close> is the nil pointer), \<open>rec\<close> is what
  \<open>recover()\<close> returns (\<open>None\<close> is nil) and \<open>finish\<close> is \<open>monotime.Now()\<close>. The
  first component of the result is the value of the final \<open>panic(rec)\<close>, \<open>None\<close> when
  the closure returns normally.
\<close>

definition exit_span ::
  "span_ref \<Rightarrow> observer option \<Rightarrow> err option \<Rightarrow> panic_value option \<Rightarrow> time \<Rightarrow> state
     \<Rightarrow> panic_value option \<times> state" where
  "exit_span s observer errptr rec finish st =
     (let panicked = (rec \<noteq> None);
          err_l = (case errptr of None \<Rightarrow> None | Some e \<Rightarrow> e);
          st1 = emit (FuncEnd (func (spans st ! s)) err_l panicked (finish - start (spans st ! s))) st;
          st2 = emit (Lock s) st1;
          st3 = upd_span s (\<lambda>x. x\<lparr>done' := True\<rparr>) st2;
          orphaned_l = orphaned (spans st3 ! s);
          children_l = bag_Iterate (children (spans st3 ! s));
          st4 = emit (Unlock s) st3;
          st5 = fold orphan children_l st4;
          st6 = (case parent (spans st5 ! s) of
                   Some p \<Rightarrow>
                     (let st' = removeChild p s st5
                      in if orphaned_l then emit (OrphanEnd s) st' else st')
                 | None \<Rightarrow> emit (RootSpanEnd s) st5);
          st7 = (case observer of
                   Some ob \<Rightarrow> emit (ObserverFinish ob s err_l panicked finish) st6
                 | None \<Rightarrow> st6)
      in (if panicked then rec else None, st7))"

text \<open>
  \<open>newSpan\<close>: \<open>now\<close> is \<open>monotime.Now()\<close>. The result is the new span, the closure and
  the state.
\<close>

definition newSpan ::
  "ctx \<Rightarrow> func_ref \<Rightarrow> string list \<Rightarrow> 64 word \<Rightarrow> trace_ref option \<Rightarrow> time \<Rightarrow> state
     \<Rightarrow> span_ref \<times> (err option \<Rightarrow> panic_value option \<Rightarrow> time \<Rightarrow> state \<Rightarrow> panic_value option \<times> state)
         \<times> state" where
  "newSpan c f xs i tr now st =
     (let (c1, parent_l, trace_l, st1) =
            (case as_span c of
               Some s \<Rightarrow>
                 (case tr of
                    None \<Rightarrow> (Context (spans st ! s), Some s, trace (spans st ! s), st)
                  | Some t \<Rightarrow> (Context (spans st ! s), None, t, st))
             | None \<Rightarrow>
                 (case value_span (spans st) c of
                    Some s \<Rightarrow>
                      (case tr of
                         None \<Rightarrow> (c, Some s, trace (spans st ! s), st)
                       | Some t \<Rightarrow> (c, None, t, st))
                  | None \<Rightarrow>
                      (case tr of
                         None \<Rightarrow>
                           (let (t, st') = NewTrace i st
                            in (c, None, t, emit (ObserveTrace f t) st'))
                       | Some t \<Rightarrow> (c, None, t, st))));
          observer = getObserver st1 trace_l;
          s = length (spans st1);
          st2 = st1\<lparr>spans := spans st1 @
                  [\<lparr>span_id = i, start = now, func = f, trace = trace_l, parent = parent_l,
                    args = xs, Context = c1, done' = False, orphaned = False, children = [],
                    annotations = nil_slice\<rparr>]\<rparr>;
          st3 = (case parent_l of
                   Some p \<Rightarrow> addChild p s (emit (FuncStart f (Some (func (spans st2 ! p)))) st2)
                 | None \<Rightarrow> emit (RootSpanStart s) (emit (FuncStart f None) st2));
          st4 = (case observer of Some ob \<Rightarrow> emit (ObserverStart ob s) st3 | None \<Rightarrow> st3)
      in (s, exit_span s observer, st4))"

text \<open>
  The closure is made to run as a deferred call, \<open>defer exit(&err)\<close>, of the
  instrumented function. What unwinds through that function when the deferred call
  starts is its normal return or a panic with the argument that \<open>panic\<close> was given,
  an interface value that may be nil. \<open>recover\<close> is the builtin under the rule of the
  language before Go 1.21, the rule this code was written under and still that of a
  module declaring \<open>go 1.20\<close> or less: it stops the panic and returns its argument, so
  that it returns nil when no panic is under way and also for \<open>panic(nil)\<close>. From
  Go 1.21 on \<open>panic(nil)\<close> panics with a \<open>runtime.PanicNilError\<close> instead, and
  \<open>Panicking None\<close> does not arise. \<open>deferred_exit\<close> runs a closure on what
  \<open>recover()\<close> returns: the function goes on unwinding with the closure's own panic
  when it ends in one, and returns normally otherwise.
\<close>

datatype unwind = Returning | Panicking "panic_value option"

definition recover :: "unwind \<Rightarrow> panic_value option" where
  "recover u = (case u of Returning \<Rightarrow> None | Panicking v \<Rightarrow> v)"

definition deferred_exit ::
  "(err option \<Rightarrow> panic_value option \<Rightarrow> time \<Rightarrow> state \<Rightarrow> panic_value option \<times> state)
     \<Rightarrow> err option \<Rightarrow> unwind \<Rightarrow> time \<Rightarrow> state \<Rightarrow> unwind \<times> state" where
  "deferred_exit exit_l errptr u finish st =
     (let (p, st') = exit_l errptr (recover u) finish st
      in (case p of None \<Rightarrow> Returning | Some v \<Rightarrow> Panicking (Some v), st'))"

section \<open>Annotations\<close>

text \<open>
  \<open>append(s, a)\<close> on the store of backing arrays: with spare capacity the element is
  written in place behind the slice; otherwise a new array is allocated, the elements
  are copied and the slice moves to it. The language promises only that the new array is
  large enough; the new capacity is the runtime's choice, and doubling (the rule of
  \<open>growslice\<close> for small slices) is taken here. Unused cells hold the zero value.
\<close>

definition zero_Annotation :: Annotation where
  "zero_Annotation = \<lparr>Name = [], Value = []\<rparr>"

definition growcap :: "nat \<Rightarrow> nat \<Rightarrow> nat" where
  "growcap oldcap needed = (if 2 * oldcap < needed then needed else 2 * oldcap)"

definition go_append ::
  "Annotation list list \<Rightarrow> slice \<Rightarrow> Annotation \<Rightarrow> slice \<times> Annotation list list" where
  "go_append mem sl a =
     (if len sl < cap sl
      then (sl\<lparr>len := len sl + 1\<rparr>, mem[ptr sl := (mem ! ptr sl)[len sl := a]])
      else (let n = growcap (cap sl) (len sl + 1)
            in (\<lparr>ptr = length mem, len = len sl + 1, cap = n\<rparr>,
                mem @ [take (len sl) (mem ! ptr sl) @ [a] @
                       replicate (n - (len sl + 1)) zero_Annotation])))"

text \<open>
  \<open>append([]Annotation(nil), src...)\<close>: nothing is appended to the nil slice when
  \<open>src\<close> is empty; otherwise the elements go to a new array.
\<close>

definition copy_slice ::
  "Annotation list list \<Rightarrow> slice \<Rightarrow> slice \<times> Annotation list list" where
  "copy_slice mem src =
     (if len src = 0 then (nil_slice, mem)
      else (let n = growcap 0 (len src)
            in (\<lparr>ptr = length mem, len = len src, cap = n\<rparr>,
                mem @ [take (len src) (mem ! ptr src) @
                       replicate (n - len src) zero_Annotation])))"

text \<open>The sequence a slice denotes in a store.\<close>

definition slice_contents :: "Annotation list list \<Rightarrow> slice \<Rightarrow> Annotation list" where
  "slice_contents mem sl = take (len sl) (mem ! ptr sl)"

definition span_annotations :: "state \<Rightarrow> span_ref \<Rightarrow> Annotation list" where
  "span_annotations st s = slice_contents (arrays st) (annotations (spans st ! s))"

definition Annotate :: "span_ref \<Rightarrow> string \<Rightarrow> string \<Rightarrow> state \<Rightarrow> state" where
  "Annotate s name_l val_l st =
     (let st1 = emit (Lock s) st;
          (sl, mem) = go_append (arrays st1) (annotations (spans st1 ! s))
                        \<lparr>Name = name_l, Value = val_l\<rparr>;
          st2 = upd_span s (\<lambda>x. x\<lparr>annotations := sl\<rparr>) (st1\<lparr>arrays := mem\<rparr>)
      in emit (Unlock s) st2)"

text \<open>
  \<open>Annotations\<close> in its two parts: the slice header is read under the lock, the copy
  is made after the lock is released.
\<close>

definition Annotations_read :: "span_ref \<Rightarrow> state \<Rightarrow> slice \<times> state" where
  "Annotations_read s st =
     (let st1 = emit (Lock s) st;
          annotations_l = annotations (spans st1 ! s)
      in (annotations_l, emit (Unlock s) st1))"

definition Annotations_copy :: "slice \<Rightarrow> state \<Rightarrow> slice \<times> state" where
  "Annotations_copy annotations_l st =
     (let (rv, mem) = copy_slice (arrays st) annotations_l in (rv, st\<lparr>arrays := mem\<rparr>))"

definition Annotations :: "span_ref \<Rightarrow> state \<Rightarrow> slice \<times> state" where
  "Annotations s st =
     (let (annotations_l, st1) = Annotations_read s st in Annotations_copy annotations_l st1)"

section \<open>The other accessors\<close>

definition Orphaned :: "span_ref \<Rightarrow> state \<Rightarrow> bool \<times> state" where
  "Orphaned s st =
     (let st1 = emit (Lock s) st;
          rv = orphaned (spans st1 ! s)
      in (rv, emit (Unlock s) st1))"

text \<open>
  Modelled from the spec: \<open>spanSorter\<close> is declared outside span.go. The spec orders
  the children by start time, ties by identity.
\<close>

definition spanSorter :: "span list \<Rightarrow> span_ref list \<Rightarrow> span_ref list" where
  "spanSorter h rs = sort_key (\<lambda>r. (start (h ! r), sint (span_id (h ! r)))) rs"

definition Children :: "span_ref \<Rightarrow> state \<Rightarrow> state" where
  "Children s st =
     (let st1 = emit (Lock s) st;
          sorter = fold (\<lambda>c acc. if c \<in> set acc then acc else acc @ [c])
                     (bag_Iterate (children (spans st1 ! s))) [];
          st2 = emit (Unlock s) st1
      in fold (\<lambda>c. emit (Visit c)) (spanSorter (spans st2) sorter) st2)"

text \<open>
  The accessors that read an immutable field take no lock and return no state:
  \<open>Start\<close>, \<open>Id\<close>, \<open>Func\<close>, \<open>Trace\<close>, \<open>Parent\<close>, and \<open>Duration\<close> at the time
  \<open>now\<close>. \<open>String\<close> and \<open>Args\<close> format their result with package fmt and are
  left out; \<open>Value\<close> is \<open>Span_Value\<close> above.
\<close>

definition Duration :: "state \<Rightarrow> span_ref \<Rightarrow> time \<Rightarrow> time" where
  "Duration st s now = now - start (spans st ! s)"

definition Start :: "state \<Rightarrow> span_ref \<Rightarrow> time" where
  "Start st s = start (spans st ! s)"

definition Id :: "state \<Rightarrow> span_ref \<Rightarrow> 64 word" where
  "Id st s = span_id (spans st ! s)"

definition Func :: "state \<Rightarrow> span_ref \<Rightarrow> func_ref" where
  "Func st s = func (spans st ! s)"

definition Trace :: "state \<Rightarrow> span_ref \<Rightarrow> trace_ref" where
  "Trace st s = trace (spans st ! s)"

definition Parent :: "state \<Rightarrow> span_ref \<Rightarrow> span_ref option" where
  "Parent st s = parent (spans st ! s)"

section \<open>Runs\<close>

text \<open>
  A caller that holds a slice returned by \<open>Annotations\<close> can assign to one of its
  elements or append to it. An index outside the slice panics in the caller and leaves
  the store as it is.
\<close>

definition client_write :: "nat \<Rightarrow> nat \<Rightarrow> Annotation \<Rightarrow> state \<Rightarrow> state" where
  "client_write k i a st =
     (if k < length (handed_out st) \<and> i < len (handed_out st ! k)
      then st\<lparr>arrays := (arrays st)[ptr (handed_out st ! k) :=
                 (arrays st ! ptr (handed_out st ! k))[i := a]]\<rparr>
      else st)"

definition client_append :: "nat \<Rightarrow> Annotation \<Rightarrow> state \<Rightarrow> state" where
  "client_append k a st =
     (if k < length (handed_out st)
      then (let (sl, mem) = go_append (arrays st) (handed_out st ! k) a
            in st\<lparr>arrays := mem, handed_out := (handed_out st)[k := sl]\<rparr>)
      else st)"

text \<open>
  The operations of the core and of its callers, and what performing each does to the
  state.
  \<open>OpExit s ob\<close> is the closure of span \<open>s\<close> that captured the observer \<open>ob\<close>.
\<close>

datatype op =
    OpStart ctx func_ref "string list" "64 word" "trace_ref option" time
  | OpExit span_ref "observer option" "err option" "panic_value option" time
  | OpOrphan span_ref
  | OpAddChild span_ref span_ref
  | OpRemoveChild span_ref span_ref
  | OpAnnotate span_ref string string
  | OpAnnotations span_ref
  | OpOrphaned span_ref
  | OpChildren span_ref
  | OpSetObserver trace_ref "observer option"
  | OpClientWrite nat nat Annotation
  | OpClientAppend nat Annotation

fun perform :: "op \<Rightarrow> state \<Rightarrow> state" where
  "perform (OpStart c f xs i tr now) st = snd (snd (newSpan c f xs i tr now st))"
| "perform (OpExit s ob errptr rec finish) st = snd (exit_span s ob errptr rec finish st)"
| "perform (OpOrphan s) st = orphan s st"
| "perform (OpAddChild s child) st = addChild s child st"
| "perform (OpRemoveChild s child) st = removeChild s child st"
| "perform (OpAnnotate s n v) st = Annotate s n v st"
| "perform (OpAnnotations s) st =
     (let (rv, st1) = Annotations s st in st1\<lparr>handed_out := handed_out st1 @ [rv]\<rparr>)"
| "perform (OpOrphaned s) st = snd (Orphaned s st)"
| "perform (OpChildren s) st = Children s st"
| "perform (OpSetObserver t ob) st = setObserver t ob st"
| "perform (OpClientWrite k i a) st = client_write k i a st"
| "perform (OpClientAppend k a) st = client_append k a st"

text \<open>
  A caller holds references to spans and traces that exist: a run skips an operation on
  a span or a trace that is not in the heap.
\<close>

fun op_ok :: "state \<Rightarrow> op \<Rightarrow> bool" where
  "op_ok st (OpStart c f xs i tr now) =
     ((case SpanFromCtx (spans st) c of Some p \<Rightarrow> p < length (spans st) | None \<Rightarrow> True) \<and>
      (case tr of Some t \<Rightarrow> t < length (traces st) | None \<Rightarrow> True))"
| "op_ok st (OpExit s ob errptr rec finish) = (s < length (spans st))"
| "op_ok st (OpOrphan s) = (s < length (spans st))"
| "op_ok st (OpAddChild s child) = (s < length (spans st) \<and> child < length (spans st))"
| "op_ok st (OpRemoveChild s child) = (s < length (spans st) \<and> child < length (spans st))"
| "op_ok st (OpAnnotate s n v) = (s < length (spans st))"
| "op_ok st (OpAnnotations s) = (s < length (spans st))"
| "op_ok st (OpOrphaned s) = (s < length (spans st))"
| "op_ok st (OpChildren s) = (s < length (spans st))"
| "op_ok st (OpSetObserver t ob) = (t < length (traces st))"
| "op_ok st (OpClientWrite k i a) = True"
| "op_ok st (OpClientAppend k a) = True"

definition step :: "op \<Rightarrow> state \<Rightarrow> state" where
  "step op st = (if op_ok st op then perform op st else st)"

definition run :: "op list \<Rightarrow> state \<Rightarrow> state" where
  "run ops st = fold step ops st"

section \<open>What the theorems are stated with\<close>

text \<open>A span that \<open>orphan\<close> would mark: neither done nor orphaned yet.\<close>

definition live :: "state \<Rightarrow> span_ref \<Rightarrow> bool" where
  "live st s = (\<not> done' (spans st ! s) \<and> \<not> orphaned (spans st ! s))"

text \<open>The events of an operation: those of the state after it that the state before it lacks.\<close>

definition emitted :: "state \<Rightarrow> state \<Rightarrow> event list" where
  "emitted st st' = drop (length (events st)) (events st')"

fun is_lock :: "event \<Rightarrow> bool" where
  "is_lock (Lock _) = True"
| "is_lock (Unlock _) = True"
| "is_lock _ = False"

text \<open>The calls into \<open>Func\<close>, registry, observer and visitor among some events.\<close>

definition callbacks :: "event list \<Rightarrow> event list" where
  "callbacks es = filter (\<lambda>e. \<not> is_lock e) es"

text \<open>The events of one call of \<open>orphan\<close> on \<open>c\<close> in the state \<open>st\<close>.\<close>

definition orphan_events :: "state \<Rightarrow> span_ref \<Rightarrow> event list" where
  "orphan_events st c = [Lock c] @ (if live st c then [OrphanedSpan c] else []) @ [Unlock c]"

text \<open>
  The finish procedure in the words of the specification: the call-site descriptor's
  end; \<open>done\<close> set and the children snapshotted under the span's lock; \<open>orphan\<close> on every
  child of the snapshot (a notification for the children that are neither done nor
  orphaned); with a parent the removal from its child set and \<open>orphanEnd\<close> when the span
  was orphaned, without a parent \<open>rootSpanEnd\<close>; the observer's finish.
\<close>

definition finish_events ::
  "span_ref \<Rightarrow> observer option \<Rightarrow> err option \<Rightarrow> panic_value option \<Rightarrow> time \<Rightarrow> state
     \<Rightarrow> event list" where
  "finish_events s ob errptr rc fin st =
     [FuncEnd (func (spans st ! s)) (case errptr of None \<Rightarrow> None | Some e \<Rightarrow> e) (rc \<noteq> None)
        (fin - start (spans st ! s)),
      Lock s, Unlock s] @
     concat (map (\<lambda>c. [Lock c] @ (if c \<noteq> s \<and> live st c then [OrphanedSpan c] else []) @ [Unlock c])
               (bag_Iterate (children (spans st ! s)))) @
     (case parent (spans st ! s) of
        Some p \<Rightarrow> [Lock p, Unlock p] @ (if orphaned (spans st ! s) then [OrphanEnd s] else [])
      | None \<Rightarrow> [RootSpanEnd s]) @
     (case ob of
        Some b \<Rightarrow> [ObserverFinish b s (case errptr of None \<Rightarrow> None | Some e \<Rightarrow> e) (rc \<noteq> None) fin]
      | None \<Rightarrow> [])"

text \<open>The span at \<open>r\<close> after the finish procedure of \<open>s\<close>, in the same words.\<close>

definition finish_span :: "span_ref \<Rightarrow> state \<Rightarrow> span_ref \<Rightarrow> span" where
  "finish_span s st r =
     (let x0 = spans st ! r;
          x1 = (if r = s then x0\<lparr>done' := True\<rparr> else x0);
          x2 = (if r \<noteq> s \<and> r \<in> set (children (spans st ! s)) \<and> live st r
                then x1\<lparr>orphaned := True\<rparr> else x1)
      in if parent (spans st ! s) = Some r
         then x2\<lparr>children := bag_Remove s (children x2)\<rparr> else x2)"

text \<open>
  What \<open>newSpan\<close> resolves: the parent (none when a trace is given), the trace, whether
  a trace is minted, the observer read from the trace, the span it allocates and the
  events it makes.
\<close>

definition resolved_parent :: "state \<Rightarrow> ctx \<Rightarrow> trace_ref option \<Rightarrow> span_ref option" where
  "resolved_parent st c tr = (case tr of None \<Rightarrow> SpanFromCtx (spans st) c | Some t \<Rightarrow> None)"

definition mints :: "state \<Rightarrow> ctx \<Rightarrow> trace_ref option \<Rightarrow> bool" where
  "mints st c tr = (tr = None \<and> SpanFromCtx (spans st) c = None)"

definition resolved_trace :: "state \<Rightarrow> ctx \<Rightarrow> trace_ref option \<Rightarrow> trace_ref" where
  "resolved_trace st c tr =
     (case tr of
        Some t \<Rightarrow> t
      | None \<Rightarrow> (case SpanFromCtx (spans st) c of
                   Some q \<Rightarrow> trace (spans st ! q)
                 | None \<Rightarrow> length (traces st)))"

definition start_observer :: "state \<Rightarrow> ctx \<Rightarrow> trace_ref option \<Rightarrow> observer option" where
  "start_observer st c tr =
     (if mints st c tr then None else getObserver st (resolved_trace st c tr))"

definition new_span ::
  "ctx \<Rightarrow> func_ref \<Rightarrow> string list \<Rightarrow> 64 word \<Rightarrow> trace_ref option \<Rightarrow> time \<Rightarrow> state \<Rightarrow> span" where
  "new_span c f xs i tr now st =
     \<lparr>span_id = i, start = now, func = f, trace = resolved_trace st c tr,
      parent = resolved_parent st c tr, args = xs,
      Context = (case as_span c of Some s0 \<Rightarrow> Context (spans st ! s0) | None \<Rightarrow> c),
      done' = False, orphaned = False, children = [], annotations = nil_slice\<rparr>"

definition start_events ::
  "ctx \<Rightarrow> func_ref \<Rightarrow> string list \<Rightarrow> 64 word \<Rightarrow> trace_ref option \<Rightarrow> time \<Rightarrow> state \<Rightarrow> event list" where
  "start_events c f xs i tr now st =
     (let s = length (spans st);
          h = spans st @ [new_span c f xs i tr now st]
      in (if mints st c tr then [ObserveTrace f (length (traces st))] else []) @
         (case resolved_parent st c tr of
            Some q \<Rightarrow>
              [FuncStart f (Some (func (h ! q))), Lock q, Unlock q] @
              (if done' (h ! q) then [Lock s, OrphanedSpan s, Unlock s] else [])
          | None \<Rightarrow> [FuncStart f None, RootSpanStart s]) @
         (case start_observer st c tr of Some b \<Rightarrow> [ObserverStart b s] | None \<Rightarrow> []))"

fun is_observer_call :: "event \<Rightarrow> bool" where
  "is_observer_call (ObserverStart _ _) = True"
| "is_observer_call (ObserverFinish _ _ _ _ _) = True"
| "is_observer_call _ = False"

fun is_observeTrace :: "event \<Rightarrow> bool" where
  "is_observeTrace (ObserveTrace _ _) = True"
| "is_observeTrace _ = False"

text \<open>
  The calls of the finish procedure, without the locking: the end of the call-site
  descriptor, one \<open>orphanedSpan\<close> for each child of the snapshot that \<open>orphan\<close> marks,
  \<open>orphanEnd\<close> or \<open>rootSpanEnd\<close>, and the observer's finish.
\<close>

definition finish_callbacks ::
  "span_ref \<Rightarrow> observer option \<Rightarrow> err option \<Rightarrow> panic_value option \<Rightarrow> time \<Rightarrow> state
     \<Rightarrow> event list" where
  "finish_callbacks s ob errptr rc fin st =
     [FuncEnd (func (spans st ! s)) (case errptr of None \<Rightarrow> None | Some e \<Rightarrow> e) (rc \<noteq> None)
        (fin - start (spans st ! s))] @
     map OrphanedSpan (filter (\<lambda>c. c \<noteq> s \<and> live st c) (bag_Iterate (children (spans st ! s)))) @
     (case parent (spans st ! s) of
        Some p \<Rightarrow> (if orphaned (spans st ! s) then [OrphanEnd s] else [])
      | None \<Rightarrow> [RootSpanEnd s]) @
     (case ob of
        Some b \<Rightarrow> [ObserverFinish b s (case errptr of None \<Rightarrow> None | Some e \<Rightarrow> e) (rc \<noteq> None) fin]
      | None \<Rightarrow> [])"

text \<open>
  No span of \<open>st\<close> is gone in \<open>st'\<close>, and none has lost \<open>done\<close> or \<open>orphaned\<close>.
\<close>

definition flags_kept :: "state \<Rightarrow> state \<Rightarrow> bool" where
  "flags_kept st st' =
     (length (spans st) \<le> length (spans st') \<and>
      (\<forall>r < length (spans st).
         (done' (spans st ! r) \<longrightarrow> done' (spans st' ! r)) \<and>
         (orphaned (spans st ! r) \<longrightarrow> orphaned (spans st' ! r))))"

text \<open>
  The locks held after some events, \<open>None\<close> when the events break the discipline
  \<open>ok\<close>: a lock is taken while a lock is held (no two locks are nested, and the spin
  lock is not re-entrant), a lock is released that is not held, or a call is made that
  \<open>ok\<close> does not allow with the locks held.
\<close>

fun locks_after ::
  "(span_ref list \<Rightarrow> event \<Rightarrow> bool) \<Rightarrow> span_ref list \<Rightarrow> event list \<Rightarrow> span_ref list option" where
  "locks_after ok held [] = Some held"
| "locks_after ok held (Lock r # es) =
     (if held = [] then locks_after ok [r] es else None)"
| "locks_after ok held (Unlock r # es) =
     (if r \<in> set held then locks_after ok (removeAll r held) es else None)"
| "locks_after ok held (e # es) = (if ok held e then locks_after ok held es else None)"

text \<open>
  The discipline as the specification states it: every call into \<open>Func\<close>, registry,
  observer or visitor is made with no lock held, and every lock is released at the end.
\<close>

definition calls_outside_locks :: "event list \<Rightarrow> bool" where
  "calls_outside_locks es = (locks_after (\<lambda>held e. held = []) [] es = Some [])"

text \<open>
  The discipline of the code: \<open>orphanedSpan\<close> is called with the lock of the orphaned
  span held, and only that lock; every other call is made with no lock held.
\<close>

fun orphanedSpan_locked :: "span_ref list \<Rightarrow> event \<Rightarrow> bool" where
  "orphanedSpan_locked held (OrphanedSpan c) = (held = [c])"
| "orphanedSpan_locked held e = (held = [])"

definition lock_discipline :: "event list \<Rightarrow> bool" where
  "lock_discipline es = (locks_after orphanedSpan_locked [] es = Some [])"

text \<open>
  The state \<open>st'\<close> has the events of \<open>st\<close> and after them events that keep the
  discipline of the code.
\<close>

definition disciplined :: "state \<Rightarrow> state \<Rightarrow> bool" where
  "disciplined st st' =
     (take (length (events st)) (events st') = events st \<and> length (events st) \<le> length (events st') \<and>
      lock_discipline (emitted st st'))"

text \<open>
  A slice fits its backing array: the length is within the capacity, and a slice with
  capacity points to an array of that capacity in the store.
\<close>

definition ok_slice :: "Annotation list list \<Rightarrow> slice \<Rightarrow> bool" where
  "ok_slice mem sl =
     (len sl \<le> cap sl \<and> (0 < cap sl \<longrightarrow> ptr sl < length mem \<and> length (mem ! ptr sl) = cap sl))"

text \<open>
  Two slices do not share a backing array.
\<close>

definition separate :: "slice \<Rightarrow> slice \<Rightarrow> bool" where
  "separate a b = (0 < cap a \<longrightarrow> 0 < cap b \<longrightarrow> ptr a \<noteq> ptr b)"

text \<open>
  The store is well formed: the annotation slice of every span and every slice handed
  out fits its array, and the array of a span is shared with no other span and with no
  slice handed out.
\<close>

definition store_ok :: "state \<Rightarrow> bool" where
  "store_ok st =
     ((\<forall>r < length (spans st). ok_slice (arrays st) (annotations (spans st ! r))) \<and>
      (\<forall>k < length (handed_out st). ok_slice (arrays st) (handed_out st ! k)) \<and>
      (\<forall>r < length (spans st). \<forall>r' < length (spans st). r \<noteq> r' \<longrightarrow>
          separate (annotations (spans st ! r)) (annotations (spans st ! r'))) \<and>
      (\<forall>r < length (spans st). \<forall>k < length (handed_out st).
          separate (annotations (spans st ! r)) (handed_out st ! k)))"

text \<open>
  The annotations that the calls of \<open>Annotate\<close> on the span \<open>r\<close> in a run append.
\<close>

fun appended :: "span_ref \<Rightarrow> op list \<Rightarrow> Annotation list" where
  "appended r [] = []"
| "appended r (OpAnnotate s n v # ops) =
     (if s = r then [\<lparr>Name = n, Value = v\<rparr>] else []) @ appended r ops"
| "appended r (op # ops) = appended r ops"

text \<open>
  The state \<open>st'\<close> has the store and the annotation slices of \<open>st\<close>; new spans have
  the nil slice.
\<close>

definition ann_frame :: "state \<Rightarrow> state \<Rightarrow> bool" where
  "ann_frame st st' =
     (arrays st' = arrays st \<and> handed_out st' = handed_out st \<and>
      length (spans st) \<le> length (spans st') \<and>
      (\<forall>r < length (spans st').
         annotations (spans st' ! r) =
           (if r < length (spans st) then annotations (spans st ! r) else nil_slice)))"

section \<open>Example states\<close>

text \<open>A context that carries nothing, and the state after one root span has started on it.\<close>

definition background :: ctx where
  "background = OtherCtx (\<lambda>_. VNil)"

definition ex_root :: state where
  "ex_root = snd (snd (newSpan background 7 [] 1 None 100 init))"

text \<open>
  A child of the root span; the root finished before its child; an observer on the
  root's trace; a finished root beside a live one.
\<close>

definition ex_child :: state where
  "ex_child = snd (snd (newSpan (SpanCtx (Some 0)) 8 [] 2 None 150 ex_root))"

definition ex_parent_done :: state where
  "ex_parent_done = snd (exit_span 0 None None None 200 ex_child)"

definition ex_observed :: state where
  "ex_observed = setObserver 0 (Some 5) ex_root"

definition ex_late :: state where
  "ex_late = snd (snd (newSpan background 9 [] 3 None 250
                (snd (exit_span 0 None None None 200 ex_root))))"

text \<open>
  A context that is not a span and carries the span \<open>r\<close> under the reserved key.
\<close>

definition ex_carrier :: "span_ref \<Rightarrow> ctx" where
  "ex_carrier r = OtherCtx (\<lambda>k. if k = SpanKey then VSpan (Some r) else VNil)"

text \<open>
  A run over the operations of the core.
\<close>

definition ex_ops :: "op list" where
  "ex_ops = [OpOrphan 0, OpOrphan 1, OpAddChild 0 1, OpStart (SpanCtx (Some 0)) 8 [] 4 None 300,
             OpAnnotate 1 ''k'' ''v'', OpExit 1 None None None 400, OpAnnotations 1,
             OpRemoveChild 0 2, OpOrphaned 1, OpChildren 0, OpExit 0 None None None 500]"

text \<open>
  One root span with one annotation; a caller that writes to the slice it was given,
  before another annotation is made.
\<close>

definition ex_ops0 :: "op list" where
  "ex_ops0 = [OpStart background 7 [] 1 None 100, OpAnnotate 0 ''a'' ''1'']"

definition ex_mutate :: "op list" where
  "ex_mutate = [OpClientWrite 0 0 \<lparr>Name = ''x'', Value = ''y''\<rparr>, OpAnnotate 0 ''b'' ''2'']"

section \<open>Lemmas\<close>

subsection \<open>Events and spans after orphan, removeChild and the finish procedure\<close>

lemma spans_emit [simp]: "spans (emit e st) = spans st"
  and traces_emit [simp]: "traces (emit e st) = traces st"
  and arrays_emit [simp]: "arrays (emit e st) = arrays st"
  and handed_out_emit [simp]: "handed_out (emit e st) = handed_out st"
  and events_emit [simp]: "events (emit e st) = events st @ [e]"
  by (simp_all add: emit_def)

lemma spans_upd_span [simp]: "spans (upd_span s g st) = (spans st)[s := g (spans st ! s)]"
  and traces_upd_span [simp]: "traces (upd_span s g st) = traces st"
  and arrays_upd_span [simp]: "arrays (upd_span s g st) = arrays st"
  and handed_out_upd_span [simp]: "handed_out (upd_span s g st) = handed_out st"
  and events_upd_span [simp]: "events (upd_span s g st) = events st"
  by (simp_all add: upd_span_def)


lemma spans_orphan:
  "spans (orphan s st) =
     (if live st s then (spans st)[s := (spans st ! s)\<lparr>orphaned := True\<rparr>] else spans st)"
  by (simp add: orphan_def live_def Let_def)

lemma events_orphan:
  "events (orphan s st) =
     events st @ [Lock s] @ (if live st s then [OrphanedSpan s] else []) @ [Unlock s]"
  by (simp add: orphan_def live_def Let_def)

lemma others_orphan [simp]:
  "traces (orphan s st) = traces st" "arrays (orphan s st) = arrays st"
  "handed_out (orphan s st) = handed_out st"
  by (simp_all add: orphan_def Let_def)

lemma length_spans_orphan [simp]: "length (spans (orphan s st)) = length (spans st)"
  by (simp add: spans_orphan)

lemma not_live_orphan: "s < length (spans st) \<Longrightarrow> \<not> live (orphan s st) s"
  by (simp add: live_def spans_orphan)


lemma span_orphan_nth:
  "r < length (spans st) \<Longrightarrow>
   spans (orphan c st) ! r =
     (if r = c \<and> live st r then (spans st ! r)\<lparr>orphaned := True\<rparr> else spans st ! r)"
  by (auto simp add: spans_orphan nth_list_update)

lemma live_orphan_other: "r \<noteq> c \<Longrightarrow> live (orphan c st) r = live st r"
  by (simp add: live_def spans_orphan)

lemma length_spans_fold_orphan [simp]: "length (spans (fold orphan cs st)) = length (spans st)"
  by (induction cs arbitrary: st) simp_all

lemma others_fold_orphan [simp]:
  "traces (fold orphan cs st) = traces st" "arrays (fold orphan cs st) = arrays st"
  "handed_out (fold orphan cs st) = handed_out st"
  by (induction cs arbitrary: st) simp_all

lemma span_fold_orphan_nth:
  "r < length (spans st) \<Longrightarrow>
   spans (fold orphan cs st) ! r =
     (if r \<in> set cs \<and> live st r then (spans st ! r)\<lparr>orphaned := True\<rparr> else spans st ! r)"
proof (induction cs arbitrary: st)
  case Nil
  then show ?case by simp
next
  case (Cons c cs)
  have len: "r < length (spans (orphan c st))" using Cons.prems by simp
  show ?case
  proof (cases "r = c")
    case True
    have nl: "\<not> live (orphan c st) r" using True Cons.prems by (simp add: not_live_orphan)
    show ?thesis using Cons.IH [OF len] nl True Cons.prems
      by (simp add: span_orphan_nth)
  next
    case False
    show ?thesis using Cons.IH [OF len] False Cons.prems
      by (simp add: span_orphan_nth live_orphan_other)
  qed
qed


lemma events_fold_orphan:
  "distinct cs \<Longrightarrow>
   events (fold orphan cs st) = events st @ concat (map (orphan_events st) cs)"
proof (induction cs arbitrary: st)
  case Nil
  then show ?case by simp
next
  case (Cons c cs)
  have "\<forall>x \<in> set cs. live (orphan c st) x = live st x"
  proof
    fix x assume "x \<in> set cs"
    then have "x \<noteq> c" using Cons.prems by auto
    then show "live (orphan c st) x = live st x" by (rule live_orphan_other)
  qed
  then have eq: "map (orphan_events (orphan c st)) cs = map (orphan_events st) cs"
    by (simp add: orphan_events_def)
  have one: "events (orphan c st) = events st @ orphan_events st c"
    by (simp add: events_orphan orphan_events_def)
  have "events (fold orphan (c # cs) st) =
          events (orphan c st) @ concat (map (orphan_events (orphan c st)) cs)"
    using Cons.IH [of "orphan c st"] Cons.prems by simp
  also have "\<dots> = events st @ concat (map (orphan_events st) (c # cs))"
    unfolding eq one by simp
  finally show ?case .
qed





lemma events_removeChild: "events (removeChild p c st) = events st @ [Lock p, Unlock p]"
  by (simp add: removeChild_def Let_def)

lemma spans_removeChild:
  "spans (removeChild p c st) =
     (spans st)[p := (spans st ! p)\<lparr>children := bag_Remove c (children (spans st ! p))\<rparr>]"
  by (simp add: removeChild_def Let_def)

lemma others_removeChild [simp]:
  "traces (removeChild p c st) = traces st" "arrays (removeChild p c st) = arrays st"
  "handed_out (removeChild p c st) = handed_out st"
  by (simp_all add: removeChild_def Let_def)

lemma exit_span_fst: "fst (exit_span s ob errptr rc fin st) = rc"
  by (cases rc) (simp_all add: exit_span_def Let_def)

lemma exit_span_stages:
  "snd (exit_span s ob errptr rc fin st) =
     (let e = (case errptr of None \<Rightarrow> None | Some x \<Rightarrow> x);
          st3 = upd_span s (\<lambda>x. x\<lparr>done' := True\<rparr>) (emit (Lock s)
                  (emit (FuncEnd (func (spans st ! s)) e (rc \<noteq> None) (fin - start (spans st ! s))) st));
          st5 = fold orphan (bag_Iterate (children (spans st3 ! s))) (emit (Unlock s) st3);
          st6 = (case parent (spans st5 ! s) of
                   Some p \<Rightarrow> (if orphaned (spans st3 ! s) then emit (OrphanEnd s) (removeChild p s st5)
                              else removeChild p s st5)
                 | None \<Rightarrow> emit (RootSpanEnd s) st5)
      in (case ob of Some b \<Rightarrow> emit (ObserverFinish b s e (rc \<noteq> None) fin) st6 | None \<Rightarrow> st6))"
  unfolding exit_span_def Let_def snd_conv
  by (auto split: option.splits)

lemma exit_span_decomp:
  fixes s :: span_ref and st :: state and errptr :: "err option"
    and rc :: "panic_value option" and fin :: time
  assumes "s < length (spans st)"
  defines "e \<equiv> (case errptr of None \<Rightarrow> None | Some (x::err) \<Rightarrow> x)"
  defines "st4 \<equiv> emit (Unlock s) (upd_span s (\<lambda>x. x\<lparr>done' := True\<rparr>) (emit (Lock s)
       (emit (FuncEnd (func (spans st ! s)) e (rc \<noteq> None) (fin - start (spans st ! s))) st)))"
  defines "st5 \<equiv> fold orphan (bag_Iterate (children (spans st ! s))) st4"
  defines "st6 \<equiv> (case parent (spans st ! s) of
                   Some p \<Rightarrow> (if orphaned (spans st ! s) then emit (OrphanEnd s) (removeChild p s st5)
                              else removeChild p s st5)
                 | None \<Rightarrow> emit (RootSpanEnd s) st5)"
  shows "snd (exit_span s ob errptr rc fin st) =
      (case ob of Some b \<Rightarrow> emit (ObserverFinish b s e (rc \<noteq> None) fin) st6 | None \<Rightarrow> st6)"
proof -
  define st3 where "st3 = upd_span s (\<lambda>x. x\<lparr>done' := True\<rparr>) (emit (Lock s)
       (emit (FuncEnd (func (spans st ! s)) e (rc \<noteq> None) (fin - start (spans st ! s))) st))"
  have st4: "st4 = emit (Unlock s) st3" by (simp add: st4_def st3_def)
  have sp3: "spans st3 ! s = (spans st ! s)\<lparr>done' := True\<rparr>"
    using assms(1) by (simp add: st3_def)
  have live4: "\<not> live st4 s"
    using assms(1) by (simp add: st4_def live_def)
  have "s < length (spans st4)" using assms(1) by (simp add: st4_def)
  then have sp5: "spans st5 ! s = (spans st ! s)\<lparr>done' := True\<rparr>"
    unfolding st5_def using span_fold_orphan_nth [of s st4] sp3
    by (simp add: live4) (simp add: st4)
  have c3: "bag_Iterate (children (spans st3 ! s)) = bag_Iterate (children (spans st ! s))"
    and o3: "orphaned (spans st3 ! s) = orphaned (spans st ! s)"
    and p5: "parent (spans st5 ! s) = parent (spans st ! s)"
    by (simp_all add: sp3 sp5)
  show ?thesis
    apply (simp only: exit_span_stages Let_def)
    apply (simp only: e_def [symmetric] st3_def [symmetric])
    apply (simp only: c3 o3 st4 [symmetric])
    apply (simp only: st5_def [symmetric] p5)
    apply (simp only: st6_def [symmetric])
    done
qed

lemma exit_span_events:
  assumes "s < length (spans st)"
  shows "events (snd (exit_span s ob errptr rc fin st)) =
           events st @ finish_events s ob errptr rc fin st"
proof -
  define e where "e = (case errptr of None \<Rightarrow> None | Some (x::err) \<Rightarrow> x)"
  define st4 where "st4 = emit (Unlock s) (upd_span s (\<lambda>x. x\<lparr>done' := True\<rparr>) (emit (Lock s)
       (emit (FuncEnd (func (spans st ! s)) e (rc \<noteq> None) (fin - start (spans st ! s))) st)))"
  define cs where "cs = bag_Iterate (children (spans st ! s))"
  have dist: "distinct cs" by (simp add: cs_def bag_Iterate_def)
  have live4: "live st4 c = (c \<noteq> s \<and> live st c)" for c
    using assms by (auto simp: st4_def live_def nth_list_update)
  have ev4: "events st4 = events st @ [FuncEnd (func (spans st ! s)) e (rc \<noteq> None)
        (fin - start (spans st ! s)), Lock s, Unlock s]"
    by (simp add: st4_def)
  have ev5: "events (fold orphan cs st4) = events st4 @
      concat (map (\<lambda>c. [Lock c] @ (if c \<noteq> s \<and> live st c then [OrphanedSpan c] else []) @ [Unlock c]) cs)"
    using events_fold_orphan [OF dist, of st4]
    by (simp add: orphan_events_def live4 cong: map_cong)
  show ?thesis
    unfolding exit_span_decomp [OF assms] finish_events_def
      e_def [symmetric] st4_def [symmetric] cs_def [symmetric]
    by (simp add: ev5 ev4 events_removeChild split: option.splits)
qed

lemma length_spans_removeChild [simp]: "length (spans (removeChild p c st)) = length (spans st)"
  by (simp add: spans_removeChild)

lemma exit_span_length [simp]:
  "length (spans (snd (exit_span s ob errptr rc fin st))) = length (spans st)"
  by (simp add: exit_span_stages Let_def split: option.splits)

lemma exit_span_spans:
  assumes "s < length (spans st)" and "r < length (spans st)"
  shows "spans (snd (exit_span s ob errptr rc fin st)) ! r = finish_span s st r"
proof -
  define e where "e = (case errptr of None \<Rightarrow> None | Some (x::err) \<Rightarrow> x)"
  define st4 where "st4 = emit (Unlock s) (upd_span s (\<lambda>x. x\<lparr>done' := True\<rparr>) (emit (Lock s)
       (emit (FuncEnd (func (spans st ! s)) e (rc \<noteq> None) (fin - start (spans st ! s))) st)))"
  define cs where "cs = bag_Iterate (children (spans st ! s))"
  define st5 where "st5 = fold orphan cs st4"
  define x1 where "x1 = (if r = s then (spans st ! r)\<lparr>done' := True\<rparr> else spans st ! r)"
  define x2 where "x2 = (if r \<noteq> s \<and> r \<in> set (children (spans st ! s)) \<and> live st r
                then x1\<lparr>orphaned := True\<rparr> else x1)"
  have live4: "live st4 r = (r \<noteq> s \<and> live st r)"
    using assms by (auto simp: st4_def live_def nth_list_update)
  have sp4: "spans st4 ! r = x1"
    using assms by (simp add: st4_def x1_def nth_list_update)
  have setcs: "set cs = set (children (spans st ! s))"
    by (simp add: cs_def bag_Iterate_def)
  have "r < length (spans st4)" using assms by (simp add: st4_def)
  then have "spans st5 ! r =
      (if r \<in> set cs \<and> live st4 r then (spans st4 ! r)\<lparr>orphaned := True\<rparr> else spans st4 ! r)"
    unfolding st5_def by (rule span_fold_orphan_nth)
  then have sp5: "spans st5 ! r = x2"
    unfolding live4 sp4 setcs x2_def by (cases "r = s") simp_all
  have len5: "r < length (spans st5)"
    using assms by (simp add: st5_def st4_def)
  have fin: "spans (snd (exit_span s ob errptr rc fin st)) =
      (case parent (spans st ! s) of
         None \<Rightarrow> spans st5
       | Some p \<Rightarrow> (spans st5)[p := (spans st5 ! p)\<lparr>children := bag_Remove s (children (spans st5 ! p))\<rparr>])"
    unfolding exit_span_decomp [OF assms(1)]
      e_def [symmetric] st4_def [symmetric] cs_def [symmetric] st5_def [symmetric]
    by (cases ob; cases "parent (spans st ! s)") (simp_all add: spans_removeChild)
  show ?thesis
  proof (cases "parent (spans st ! s)")
    case None
    then show ?thesis
      unfolding fin finish_span_def Let_def x1_def [symmetric] x2_def [symmetric]
      by (simp add: sp5)
  next
    case (Some p)
    show ?thesis
    proof (cases "r = p")
      case True
      then show ?thesis
        unfolding fin finish_span_def Let_def x1_def [symmetric] x2_def [symmetric] Some
        using len5 sp5 by simp
    next
      case False
      then show ?thesis
        unfolding fin finish_span_def Let_def x1_def [symmetric] x2_def [symmetric] Some
        using sp5 by simp
    qed
  qed
qed

subsection \<open>Lookups in a context\<close>

lemma ctx_Value_SpanKey:
  "ctx_Value h c SpanKey = Some (Inr (case c of OtherCtx g \<Rightarrow> g SpanKey | SpanCtx s \<Rightarrow> VSpan s))"
  by (subst ctx_Value.simps) (simp split: ctx.splits option.splits)

lemma value_span_simps [simp]:
  "value_span h (OtherCtx g) = (case g SpanKey of VSpan (Some s) \<Rightarrow> Some s | _ \<Rightarrow> None)"
  "value_span h (SpanCtx s) = s"
  by (simp_all add: value_span_def ctx_Value_SpanKey split: iface.splits option.splits)

lemma as_span_simps [simp]:
  "as_span (OtherCtx g) = None" "as_span (SpanCtx s) = s"
  by (simp_all add: as_span_def split: option.splits)

lemmas eval_defs = newSpan_def NewTrace_def getObserver_def init_def background_def
  addChild_def orphan_def removeChild_def exit_span_def emit_def upd_span_def Let_def
  bag_Add_def bag_Remove_def bag_Iterate_def nil_slice_def

lemma ex_root_val: "spans ex_root = [\<lparr>span_id = 1, start = 100, func = 7, trace = 0, parent = None,
     args = [], Context = background, done' = False, orphaned = False, children = [],
     annotations = nil_slice\<rparr>]"
  by (simp add: ex_root_def eval_defs)


subsection \<open>Counting the notifications of orphan\<close>

lemma count_orphan:
  "count_list (events (orphan s st)) (OrphanedSpan s) =
     count_list (events st) (OrphanedSpan s) + (if live st s then 1 else 0)"
  by (simp add: events_orphan)

lemma count_funpow_orphan:
  "s < length (spans st) \<Longrightarrow>
   count_list (events ((orphan s ^^ n) st)) (OrphanedSpan s) =
     count_list (events st) (OrphanedSpan s) + (if 0 < n \<and> live st s then 1 else 0)"
proof (induction n arbitrary: st)
  case 0
  then show ?case by simp
next
  case (Suc n)
  have "count_list (events ((orphan s ^^ n) (orphan s st))) (OrphanedSpan s) =
          count_list (events (orphan s st)) (OrphanedSpan s)"
    using Suc.IH [of "orphan s st"] Suc.prems by (simp add: not_live_orphan)
  then show ?case by (simp add: funpow_swap1 count_orphan)
qed

lemma length_spans_funpow_orphan [simp]:
  "length (spans ((orphan s ^^ n) st)) = length (spans st)"
  by (induction n) simp_all

lemma count_list_concat: "count_list (concat xss) x = sum_list (map (\<lambda>xs. count_list xs x) xss)"
  by (induction xss) simp_all

lemma count_finish_events:
  "count_list (finish_events s ob errptr rc fin st) (OrphanedSpan s) = 0"
proof -
  have "sum_list (map (\<lambda>c. count_list ([Lock c] @ (if c \<noteq> s \<and> live st c then [OrphanedSpan c] else []) @ [Unlock c]) (OrphanedSpan s)) cs) = 0" for cs
    by (induction cs) simp_all
  then show ?thesis
    by (simp add: finish_events_def count_list_concat comp_def split: option.splits)
qed

lemma exit_span_done:
  "s < length (spans st) \<Longrightarrow> done' (spans (snd (exit_span s ob errptr rc fin st)) ! s)"
  by (simp add: exit_span_spans finish_span_def Let_def)

subsection \<open>Events and spans after addChild and newSpan\<close>

lemma events_addChild:
  "events (addChild p c st) =
     events st @ [Lock p, Unlock p] @ (if done' (spans st ! p) then orphan_events st c else [])"
proof -
  define st3 where "st3 = emit (Unlock p)
     (upd_span p (\<lambda>x. x\<lparr>children := bag_Add c (children x)\<rparr>) (emit (Lock p) st))"
  have d: "done' (spans st3 ! q) = done' (spans st ! q)"
    and o: "orphaned (spans st3 ! q) = orphaned (spans st ! q)" for q
    by (cases "p < length (spans st)",
        simp_all add: st3_def nth_list_update not_less list_update_beyond)+
  have l: "live st3 c = live st c" by (simp add: live_def d o)
  have "addChild p c st = (if done' (spans st ! p) then orphan c st3 else st3)"
    unfolding addChild_def Let_def st3_def [symmetric]
    by (cases "p < length (spans st)")
       (simp_all add: st3_def nth_list_update not_less list_update_beyond)
  then show ?thesis
    by (simp add: events_orphan orphan_events_def l) (simp add: st3_def)
qed

lemma spans_addChild_nth:
  assumes "r < length (spans st)"
  shows "spans (addChild p c st) ! r =
     (let x0 = spans st ! r;
          x1 = (if r = p then x0\<lparr>children := bag_Add c (children x0)\<rparr> else x0)
      in if r = c \<and> done' (spans st ! p) \<and> live st c then x1\<lparr>orphaned := True\<rparr> else x1)"
proof -
  define st3 where "st3 = emit (Unlock p)
     (upd_span p (\<lambda>x. x\<lparr>children := bag_Add c (children x)\<rparr>) (emit (Lock p) st))"
  have d: "done' (spans st3 ! q) = done' (spans st ! q)"
    and o: "orphaned (spans st3 ! q) = orphaned (spans st ! q)" for q
    by (cases "p < length (spans st)",
        simp_all add: st3_def nth_list_update not_less list_update_beyond)+
  have l: "live st3 c = live st c" by (simp add: live_def d o)
  have eq: "addChild p c st = (if done' (spans st ! p) then orphan c st3 else st3)"
    unfolding addChild_def Let_def st3_def [symmetric]
    by (cases "p < length (spans st)")
       (simp_all add: st3_def nth_list_update not_less list_update_beyond)
  have r3: "r < length (spans st3)" using assms by (simp add: st3_def)
  have s3: "spans st3 ! r = (if r = p then (spans st ! r)\<lparr>children := bag_Add c (children (spans st ! r))\<rparr> else spans st ! r)"
    using assms by (simp add: st3_def nth_list_update)
  show ?thesis
    unfolding eq using span_orphan_nth [OF r3, of c] s3 l
    by (auto simp add: Let_def)
qed

lemma length_spans_addChild [simp]: "length (spans (addChild p c st)) = length (spans st)"
  by (simp add: addChild_def Let_def)

lemma others_addChild [simp]:
  "traces (addChild p c st) = traces st" "arrays (addChild p c st) = arrays st"
  "handed_out (addChild p c st) = handed_out st"
  by (simp_all add: addChild_def Let_def)

lemma SpanFromCtx_cases:
  "SpanFromCtx h c = (case as_span c of Some s \<Rightarrow> Some s | None \<Rightarrow> value_span h c)"
  by (simp add: SpanFromCtx_def split: option.splits)


lemma newSpan_stages:
  "newSpan c f xs i tr now st =
     (let p = (case tr of None \<Rightarrow> SpanFromCtx (spans st) c | Some t \<Rightarrow> None);
          c1 = (case as_span c of Some s0 \<Rightarrow> Context (spans st ! s0) | None \<Rightarrow> c);
          t = (case tr of Some t \<Rightarrow> t
               | None \<Rightarrow> (case SpanFromCtx (spans st) c of Some q \<Rightarrow> trace (spans st ! q)
                          | None \<Rightarrow> length (traces st)));
          st1 = (if tr = None \<and> SpanFromCtx (spans st) c = None
                 then emit (ObserveTrace f (length (traces st)))
                        (st\<lparr>traces := traces st @ [\<lparr>trace_id = i, observer_of = None\<rparr>]\<rparr>)
                 else st);
          ob = getObserver st1 t;
          s = length (spans st1);
          st2 = st1\<lparr>spans := spans st1 @
                  [\<lparr>span_id = i, start = now, func = f, trace = t, parent = p,
                    args = xs, Context = c1, done' = False, orphaned = False, children = [],
                    annotations = nil_slice\<rparr>]\<rparr>;
          st3 = (case p of
                   Some q \<Rightarrow> addChild q s (emit (FuncStart f (Some (func (spans st2 ! q)))) st2)
                 | None \<Rightarrow> emit (RootSpanStart s) (emit (FuncStart f None) st2));
          st4 = (case ob of Some b \<Rightarrow> emit (ObserverStart b s) st3 | None \<Rightarrow> st3)
      in (s, exit_span s ob, st4))"
proof (cases "as_span c")
  case None
  note a = this
  show ?thesis
  proof (cases "value_span (spans st) c")
    case None
    show ?thesis
      unfolding newSpan_def SpanFromCtx_cases NewTrace_def a None
      by (cases tr) (simp_all only: option.case prod.case Let_def simp_thms if_True if_False
          option.distinct)
  next
    case (Some q)
    show ?thesis
      unfolding newSpan_def SpanFromCtx_cases NewTrace_def a Some
      by (cases tr) (simp_all only: option.case prod.case Let_def simp_thms if_True if_False
          option.distinct)
  qed
next
  case (Some q)
  show ?thesis
    unfolding newSpan_def SpanFromCtx_cases NewTrace_def Some
    by (cases tr) (simp_all only: option.case prod.case Let_def simp_thms if_True if_False
        option.distinct)
qed

lemma newSpan_eq:
  fixes c :: ctx and f :: func_ref and xs :: "string list" and i :: "64 word"
    and tr :: "trace_ref option" and now :: time and st :: state
  defines "s \<equiv> length (spans st)"
  defines "nw \<equiv> new_span c f xs i tr now st"
  defines "st1 \<equiv> (if mints st c tr
                 then emit (ObserveTrace f (length (traces st)))
                        (st\<lparr>traces := traces st @ [\<lparr>trace_id = i, observer_of = None\<rparr>]\<rparr>)
                 else st)"
  defines "st2 \<equiv> st1\<lparr>spans := spans st @ [nw]\<rparr>"
  defines "st3 \<equiv> (case resolved_parent st c tr of
                   Some q \<Rightarrow> addChild q s (emit (FuncStart f (Some (func ((spans st @ [nw]) ! q)))) st2)
                 | None \<Rightarrow> emit (RootSpanStart s) (emit (FuncStart f None) st2))"
  shows "newSpan c f xs i tr now st =
     (s, exit_span s (start_observer st c tr),
      (case start_observer st c tr of Some b \<Rightarrow> emit (ObserverStart b s) st3 | None \<Rightarrow> st3))"
proof -
  have sp1: "spans st1 = spans st" by (simp add: st1_def)
  have ob: "getObserver st1 (resolved_trace st c tr) = start_observer st c tr"
    by (simp add: st1_def start_observer_def mints_def resolved_trace_def getObserver_def)
  have sp2: "spans st2 = spans st @ [nw]" by (simp add: st2_def)
  show ?thesis
    unfolding newSpan_stages Let_def
    unfolding resolved_parent_def [symmetric] resolved_trace_def [symmetric] mints_def [symmetric]
    unfolding st1_def [symmetric] sp1 ob
    unfolding new_span_def [symmetric] nw_def [symmetric]
    unfolding st2_def [symmetric] sp2 s_def [symmetric]
    unfolding st3_def [symmetric]
    by (rule refl)
qed


lemma newSpan_fst: "fst (newSpan c f xs i tr now st) = length (spans st)"
  by (simp add: newSpan_eq)

lemma newSpan_exit:
  "fst (snd (newSpan c f xs i tr now st)) = exit_span (length (spans st)) (start_observer st c tr)"
  by (simp add: newSpan_eq)

lemma newSpan_traces:
  "traces (snd (snd (newSpan c f xs i tr now st))) =
     (if mints st c tr then traces st @ [\<lparr>trace_id = i, observer_of = None\<rparr>] else traces st)"
  by (cases "start_observer st c tr"; cases "resolved_parent st c tr") (simp_all add: newSpan_eq)

lemma newSpan_length [simp]:
  "length (spans (snd (snd (newSpan c f xs i tr now st)))) = Suc (length (spans st))"
  by (cases "start_observer st c tr"; cases "resolved_parent st c tr") (simp_all add: newSpan_eq)

lemma newSpan_events:
  "events (snd (snd (newSpan c f xs i tr now st))) = events st @ start_events c f xs i tr now st"
proof -
  define nw where "nw = new_span c f xs i tr now st"
  have lv: "live (st'\<lparr>spans := spans st @ [nw]\<rparr>) (length (spans st))" for st' :: state
    by (simp add: live_def nw_def new_span_def)
  have lv': "live (emit e (st'\<lparr>spans := spans st @ [nw]\<rparr>)) (length (spans st))"
    for st' :: state and e
    using lv [of st'] by (simp add: live_def)
  show ?thesis
    unfolding newSpan_eq snd_conv start_events_def Let_def nw_def [symmetric]
    by (cases "start_observer st c tr"; cases "resolved_parent st c tr")
       (simp_all add: events_addChild orphan_events_def lv')
qed

lemma newSpan_spans_nth:
  assumes "r \<le> length (spans st)"
  shows "spans (snd (snd (newSpan c f xs i tr now st))) ! r =
     (let h = spans st @ [new_span c f xs i tr now st];
          s = length (spans st)
      in case resolved_parent st c tr of
           None \<Rightarrow> h ! r
         | Some q \<Rightarrow>
            (let x1 = (if r = q then (h ! r)\<lparr>children := bag_Add s (children (h ! r))\<rparr> else h ! r)
             in if r = s \<and> done' (h ! q) then x1\<lparr>orphaned := True\<rparr> else x1))"
proof -
  define nw where "nw = new_span c f xs i tr now st"
  have lv': "live (emit e (st'\<lparr>spans := spans st @ [nw]\<rparr>)) (length (spans st))"
    for st' :: state and e
    by (simp add: live_def nw_def new_span_def)
  have r: "r < length (spans (emit e (st'\<lparr>spans := spans st @ [nw]\<rparr>)))" for st' :: state and e
    using assms by simp
  show ?thesis
  proof (cases "resolved_parent st c tr")
    case None
    then show ?thesis
      unfolding newSpan_eq snd_conv Let_def nw_def [symmetric]
      by (cases "start_observer st c tr") simp_all
  next
    case (Some q)
    then show ?thesis
      unfolding newSpan_eq snd_conv Let_def nw_def [symmetric]
      by (cases "start_observer st c tr") (simp_all add: spans_addChild_nth [OF r] Let_def lv')
  qed
qed

subsection \<open>The calls of the finish procedure\<close>

lemma callbacks_append [simp]: "callbacks (xs @ ys) = callbacks xs @ callbacks ys"
  by (simp add: callbacks_def)

lemma callbacks_orphan_loop:
  "callbacks (concat (map (\<lambda>c. [Lock c] @ (if P c then [OrphanedSpan c] else []) @ [Unlock c]) cs)) =
     map OrphanedSpan (filter P cs)"
  by (induction cs) (simp_all add: callbacks_def)

lemma callbacks_finish_events:
  "callbacks (finish_events s ob errptr rc fin st) = finish_callbacks s ob errptr rc fin st"
  unfolding finish_events_def finish_callbacks_def callbacks_append callbacks_orphan_loop
  by (cases ob; cases "parent (spans st ! s)") (simp_all add: callbacks_def)

lemma emitted_append [simp]: "emitted st (st'\<lparr>events := events st @ es\<rparr>) = es"
  by (simp add: emitted_def)

lemma emitted_exit_span:
  "s < length (spans st) \<Longrightarrow>
   emitted st (snd (exit_span s ob errptr rc fin st)) = finish_events s ob errptr rc fin st"
  by (simp add: emitted_def exit_span_events)

lemma ex_child_val: "spans ex_child =
   [\<lparr>span_id = 1, start = 100, func = 7, trace = 0, parent = None,
     args = [], Context = background, done' = False, orphaned = False, children = [1],
     annotations = nil_slice\<rparr>,
    \<lparr>span_id = 2, start = 150, func = 8, trace = 0, parent = Some 0,
     args = [], Context = background, done' = False, orphaned = False, children = [],
     annotations = nil_slice\<rparr>]"
  by (simp add: ex_child_def ex_root_def eval_defs)

lemma ex_parent_done_val: "spans ex_parent_done =
   [\<lparr>span_id = 1, start = 100, func = 7, trace = 0, parent = None,
     args = [], Context = background, done' = True, orphaned = False, children = [1],
     annotations = nil_slice\<rparr>,
    \<lparr>span_id = 2, start = 150, func = 8, trace = 0, parent = Some 0,
     args = [], Context = background, done' = False, orphaned = True, children = [],
     annotations = nil_slice\<rparr>]"
  by (simp add: ex_parent_done_def ex_child_def ex_root_def eval_defs)

lemma exit_span_spans_eq:
  assumes "s < length (spans st)"
  shows "spans (snd (exit_span s ob errptr rc fin st)) = map (finish_span s st) [0..<length (spans st)]"
  by (rule nth_equalityI) (simp_all add: exit_span_spans [OF assms])

lemma newSpan_new_fields:
  "parent (spans (snd (snd (newSpan c f xs i tr now st))) ! length (spans st)) =
     resolved_parent st c tr \<and>
   trace (spans (snd (snd (newSpan c f xs i tr now st))) ! length (spans st)) =
     resolved_trace st c tr"
  using newSpan_spans_nth [of "length (spans st)" st c f xs i tr now]
  unfolding Let_def
  by (cases "resolved_parent st c tr") (auto simp add: new_span_def)

lemma newSpan_getObserver:
  "getObserver (snd (snd (newSpan c f xs i tr now st))) (resolved_trace st c tr) =
     start_observer st c tr"
  by (simp add: getObserver_def newSpan_traces start_observer_def) 
     (simp add: mints_def resolved_trace_def)

lemma observer_calls_orphan_loop:
  "filter is_observer_call
     (concat (map (\<lambda>c. [Lock c] @ (if P c then [OrphanedSpan c] else []) @ [Unlock c]) cs)) = []"
  by (induction cs) simp_all

lemma observer_calls_finish_events:
  "filter is_observer_call (finish_events s ob errptr rc fin st) =
     (case ob of
        Some b \<Rightarrow> [ObserverFinish b s (case errptr of None \<Rightarrow> None | Some e \<Rightarrow> e) (rc \<noteq> None) fin]
      | None \<Rightarrow> [])"
  unfolding finish_events_def filter_append observer_calls_orphan_loop
  by (cases ob; cases "parent (spans st ! s)") simp_all

lemma observer_calls_start_events:
  "filter is_observer_call (start_events c f xs i tr now st) =
     (case start_observer st c tr of Some b \<Rightarrow> [ObserverStart b (length (spans st))] | None \<Rightarrow> [])"
  unfolding start_events_def Let_def
  by (cases "resolved_parent st c tr"; cases "start_observer st c tr") simp_all

lemma ex_late_val: "spans ex_late =
   [\<lparr>span_id = 1, start = 100, func = 7, trace = 0, parent = None,
     args = [], Context = background, done' = True, orphaned = False, children = [],
     annotations = nil_slice\<rparr>,
    \<lparr>span_id = 3, start = 250, func = 9, trace = 1, parent = None,
     args = [], Context = background, done' = False, orphaned = False, children = [],
     annotations = nil_slice\<rparr>]"
  by (simp add: ex_late_def ex_root_def eval_defs SpanFromCtx_def)

lemma ctx_Value_span: "ctx_Value h (SpanCtx s) k = Span_Value h s k"
  by (subst ctx_Value.simps) (simp add: Span_Value_def split: option.splits)

lemma ctx_Value_other: "ctx_Value h (OtherCtx g) k = Some (Inr (g k))"
  by (subst ctx_Value.simps) simp

lemma SpanFromCtx_span: "SpanFromCtx h (SpanCtx s) = s"
  by (cases s) (simp_all add: SpanFromCtx_def)

lemma SpanFromCtx_carried:
  "ctx_Value h c SpanKey = Some (Inr (VSpan (Some r))) \<Longrightarrow> SpanFromCtx h c = Some r"
  by (cases c) (auto simp add: SpanFromCtx_def value_span_def as_span_def ctx_Value_SpanKey
      split: option.splits)

subsection \<open>Flags are kept\<close>

lemma nth_list_update_any:
  "(xs[i := x]) ! j = (if i = j \<and> i < length xs then x else xs ! j)"
  by (cases "i < length xs") (simp_all add: nth_list_update not_less list_update_beyond)

lemma flags_kept_refl [simp]: "flags_kept st st"
  by (simp add: flags_kept_def)

lemma flags_kept_trans: "flags_kept a b \<Longrightarrow> flags_kept b c \<Longrightarrow> flags_kept a c"
  unfolding flags_kept_def by (meson less_le_trans order_trans)

lemma flags_kept_same_spans: "spans st' = spans st \<Longrightarrow> flags_kept st st'"
  by (simp add: flags_kept_def)

lemma flags_kept_emit: "flags_kept st (emit e st)"
  by (simp add: flags_kept_same_spans)

lemma flags_kept_upd_span:
  assumes "\<And>x. (done' x \<longrightarrow> done' (g x)) \<and> (orphaned x \<longrightarrow> orphaned (g x))"
  shows "flags_kept st (upd_span s g st)"
  unfolding flags_kept_def using assms by (simp add: nth_list_update_any)

lemma flags_kept_orphan: "flags_kept st (orphan s st)"
  unfolding flags_kept_def by (simp add: spans_orphan nth_list_update_any)

lemma flags_kept_fold_orphan: "flags_kept st (fold orphan cs st)"
proof (induction cs arbitrary: st)
  case Nil
  show ?case by simp
next
  case (Cons c cs)
  show ?case
    using flags_kept_trans [OF flags_kept_orphan Cons.IH] by simp
qed

lemma flags_kept_removeChild: "flags_kept st (removeChild p c st)"
  unfolding flags_kept_def by (simp add: spans_removeChild nth_list_update_any)

lemma flags_kept_addChild: "flags_kept st (addChild p c st)"
proof -
  define st3 where "st3 = emit (Unlock p)
     (upd_span p (\<lambda>x. x\<lparr>children := bag_Add c (children x)\<rparr>) (emit (Lock p) st))"
  have a: "flags_kept st st3"
    unfolding flags_kept_def st3_def by (simp add: nth_list_update_any)
  have "addChild p c st = (if done' (spans st3 ! p) then orphan c st3 else st3)"
    unfolding addChild_def Let_def st3_def by simp
  then show ?thesis
    using a flags_kept_trans [OF a flags_kept_orphan] by simp
qed

lemma flags_kept_exit_span: "flags_kept st (snd (exit_span s ob errptr rc fin st))"
proof -
  define e where "e = (case errptr of None \<Rightarrow> None | Some (x::err) \<Rightarrow> x)"
  define st3 where "st3 = upd_span s (\<lambda>x. x\<lparr>done' := True\<rparr>) (emit (Lock s)
       (emit (FuncEnd (func (spans st ! s)) e (rc \<noteq> None) (fin - start (spans st ! s))) st))"
  define st5 where "st5 = fold orphan (bag_Iterate (children (spans st3 ! s))) (emit (Unlock s) st3)"
  define st6 where "st6 = (case parent (spans st5 ! s) of
                   Some p \<Rightarrow> (if orphaned (spans st3 ! s) then emit (OrphanEnd s) (removeChild p s st5)
                              else removeChild p s st5)
                 | None \<Rightarrow> emit (RootSpanEnd s) st5)"
  have a3: "flags_kept st st3"
    unfolding flags_kept_def st3_def by (simp add: nth_list_update_any)
  have a4: "flags_kept st3 (emit (Unlock s) st3)" by (rule flags_kept_emit)
  have a5: "flags_kept st st5"
    unfolding st5_def
    by (rule flags_kept_trans [OF a3 flags_kept_trans [OF a4 flags_kept_fold_orphan]])
  have a6: "flags_kept st5 st6"
    unfolding st6_def
    by (cases "parent (spans st5 ! s)")
       (auto intro: flags_kept_emit flags_kept_removeChild
          flags_kept_trans [OF flags_kept_removeChild flags_kept_emit])
  have a7: "snd (exit_span s ob errptr rc fin st) =
      (case ob of Some b \<Rightarrow> emit (ObserverFinish b s e (rc \<noteq> None) fin) st6 | None \<Rightarrow> st6)"
    unfolding exit_span_stages Let_def e_def st3_def st5_def st6_def by (rule refl)
  have a8: "flags_kept st6 (snd (exit_span s ob errptr rc fin st))"
    unfolding a7 by (cases ob) (simp_all add: flags_kept_emit)
  show ?thesis
    by (rule flags_kept_trans [OF a5 flags_kept_trans [OF a6 a8]])
qed

lemma flags_kept_newSpan: "flags_kept st (snd (snd (newSpan c f xs i tr now st)))"
proof -
  have "(done' (spans st ! r) \<longrightarrow> done' (spans (snd (snd (newSpan c f xs i tr now st))) ! r)) \<and>
        (orphaned (spans st ! r) \<longrightarrow> orphaned (spans (snd (snd (newSpan c f xs i tr now st))) ! r))"
    if r: "r < length (spans st)" for r
  proof -
    have le: "r \<le> length (spans st)" using r by simp
    have h: "(spans st @ [new_span c f xs i tr now st]) ! r = spans st ! r"
      using r by (simp add: nth_append)
    show ?thesis
      unfolding newSpan_spans_nth [OF le] Let_def h
      by (cases "resolved_parent st c tr") simp_all
  qed
  then show ?thesis
    by (simp add: flags_kept_def)
qed

lemma spans_Annotate:
  "spans (Annotate s n v st) =
     (spans st)[s := (spans st ! s)\<lparr>annotations :=
        fst (go_append (arrays st) (annotations (spans st ! s)) \<lparr>Name = n, Value = v\<rparr>)\<rparr>]"
  by (simp add: Annotate_def Let_def split: prod.splits)

lemma spans_Annotations [simp]: "spans (snd (Annotations s st)) = spans st"
  by (simp add: Annotations_def Annotations_read_def Annotations_copy_def Let_def split: prod.splits)

lemma spans_Orphaned [simp]: "spans (snd (Orphaned s st)) = spans st"
  by (simp add: Orphaned_def Let_def)

lemma spans_fold_emit [simp]: "spans (fold (\<lambda>c. emit (g c)) cs st) = spans st"
  by (induction cs arbitrary: st) simp_all

lemma spans_Children [simp]: "spans (Children s st) = spans st"
  by (simp add: Children_def Let_def)

lemma spans_setObserver [simp]: "spans (setObserver t ob st) = spans st"
  by (simp add: setObserver_def)

lemma spans_client_write [simp]: "spans (client_write k i a st) = spans st"
  by (simp add: client_write_def)

lemma spans_client_append [simp]: "spans (client_append k a st) = spans st"
  by (simp add: client_append_def Let_def split: prod.splits)

lemma flags_kept_perform: "flags_kept st (perform op st)"
proof (cases op)
  case (OpAnnotate s n v)
  then show ?thesis
    by (simp add: flags_kept_def spans_Annotate nth_list_update_any)
next
  case (OpAnnotations s)
  then show ?thesis
    using spans_Annotations [of s st]
    by (cases "Annotations s st") (simp add: flags_kept_def)
qed (simp_all add: flags_kept_newSpan flags_kept_exit_span flags_kept_orphan flags_kept_addChild
      flags_kept_removeChild flags_kept_same_spans)

lemma flags_kept_step: "flags_kept st (step op st)"
  by (simp add: step_def flags_kept_perform)

lemma flags_kept_run: "flags_kept st (run ops st)"
  unfolding run_def
proof (induction ops arbitrary: st)
  case Nil
  show ?case by simp
next
  case (Cons op ops)
  show ?case
    using flags_kept_trans [OF flags_kept_step Cons.IH] by simp
qed

subsection \<open>The lock discipline\<close>

lemma locks_after_append:
  "locks_after ok held (xs @ ys) =
     (case locks_after ok held xs of None \<Rightarrow> None | Some h \<Rightarrow> locks_after ok h ys)"
proof (induction xs arbitrary: held)
  case Nil
  show ?case by simp
next
  case (Cons e xs)
  show ?case by (cases e) (simp_all add: Cons.IH)
qed

lemma lock_discipline_append:
  "lock_discipline xs \<Longrightarrow> lock_discipline ys \<Longrightarrow> lock_discipline (xs @ ys)"
  by (simp add: lock_discipline_def locks_after_append)

lemma lock_discipline_Nil [simp]: "lock_discipline []"
  by (simp add: lock_discipline_def)

lemma disciplinedI:
  "events st' = events st @ es \<Longrightarrow> lock_discipline es \<Longrightarrow> disciplined st st'"
  by (simp add: disciplined_def emitted_def)

lemma disciplined_events:
  "disciplined st st' \<Longrightarrow> events st' = events st @ emitted st st'"
  unfolding disciplined_def emitted_def
  by (metis append_take_drop_id)

lemma disciplined_refl [simp]: "disciplined st st"
  by (rule disciplinedI [of _ _ "[]"]) simp_all

lemma disciplined_trans:
  assumes "disciplined a b" and "disciplined b c"
  shows "disciplined a c"
proof -
  have "events c = events a @ (emitted a b @ emitted b c)"
    using disciplined_events [OF assms(1)] disciplined_events [OF assms(2)] by simp
  moreover have "lock_discipline (emitted a b @ emitted b c)"
    using assms by (simp add: disciplined_def lock_discipline_append)
  ultimately show ?thesis by (rule disciplinedI)
qed

lemma disciplined_same_events: "events st' = events st \<Longrightarrow> disciplined st st'"
  by (rule disciplinedI [of _ _ "[]"]) simp_all

lemma disciplined_orphan: "disciplined st (orphan s st)"
  by (rule disciplinedI [OF events_orphan]) (simp add: lock_discipline_def)

lemma disciplined_fold_orphan: "disciplined st (fold orphan cs st)"
proof (induction cs arbitrary: st)
  case Nil
  show ?case by simp
next
  case (Cons c cs)
  show ?case
    using disciplined_trans [OF disciplined_orphan Cons.IH] by simp
qed

lemma lock_discipline_call:
  "orphanedSpan_locked [] e \<Longrightarrow> \<not> is_lock e \<Longrightarrow> lock_discipline [e]"
  by (cases e) (simp_all add: lock_discipline_def)

lemma disciplined_call:
  assumes "orphanedSpan_locked [] e" and "\<not> is_lock e"
  shows "disciplined st (emit e st)"
proof (rule disciplinedI)
  show "events (emit e st) = events st @ [e]" by simp
  show "lock_discipline [e]" using assms by (rule lock_discipline_call)
qed

lemma lock_discipline_locked [simp]: "lock_discipline [Lock s, Unlock s]"
  by (simp add: lock_discipline_def)

lemma disciplined_removeChild: "disciplined st (removeChild p c st)"
  by (rule disciplinedI [OF events_removeChild]) simp

lemma lock_discipline_orphan_events [simp]: "lock_discipline (orphan_events st c)"
  by (simp add: orphan_events_def lock_discipline_def)

lemma disciplined_addChild: "disciplined st (addChild p c st)"
proof (rule disciplinedI [OF events_addChild])
  show "lock_discipline
      ([Lock p, Unlock p] @ (if done' (spans st ! p) then orphan_events st c else []))"
    by (rule lock_discipline_append) simp_all
qed

lemma disciplined_exit_span: "disciplined st (snd (exit_span s ob errptr rc fin st))"
proof -
  define e where "e = (case errptr of None \<Rightarrow> None | Some (x::err) \<Rightarrow> x)"
  define st3 where "st3 = upd_span s (\<lambda>x. x\<lparr>done' := True\<rparr>) (emit (Lock s)
       (emit (FuncEnd (func (spans st ! s)) e (rc \<noteq> None) (fin - start (spans st ! s))) st))"
  define st5 where "st5 = fold orphan (bag_Iterate (children (spans st3 ! s))) (emit (Unlock s) st3)"
  define st6 where "st6 = (case parent (spans st5 ! s) of
                   Some p \<Rightarrow> (if orphaned (spans st3 ! s) then emit (OrphanEnd s) (removeChild p s st5)
                              else removeChild p s st5)
                 | None \<Rightarrow> emit (RootSpanEnd s) st5)"
  have "events (emit (Unlock s) st3) =
      events st @ ([FuncEnd (func (spans st ! s)) e (rc \<noteq> None) (fin - start (spans st ! s))] @
        [Lock s, Unlock s])"
    by (simp add: st3_def)
  moreover have "lock_discipline
      ([FuncEnd (func (spans st ! s)) e (rc \<noteq> None) (fin - start (spans st ! s))] @ [Lock s, Unlock s])"
    by (simp add: lock_discipline_def)
  ultimately have a4: "disciplined st (emit (Unlock s) st3)" by (rule disciplinedI)
  have a5: "disciplined st st5"
    unfolding st5_def by (rule disciplined_trans [OF a4 disciplined_fold_orphan])
  have r1: "disciplined st5 (emit (RootSpanEnd s) st5)"
    by (rule disciplined_call) simp_all
  have r2: "disciplined st5 (emit (OrphanEnd s) (removeChild p s st5))" for p
    by (rule disciplined_trans [OF disciplined_removeChild disciplined_call]) simp_all
  have a6: "disciplined st5 st6"
    unfolding st6_def
    by (cases "parent (spans st5 ! s)") (simp_all add: r1 r2 disciplined_removeChild)
  have a7: "snd (exit_span s ob errptr rc fin st) =
      (case ob of Some b \<Rightarrow> emit (ObserverFinish b s e (rc \<noteq> None) fin) st6 | None \<Rightarrow> st6)"
    unfolding exit_span_stages Let_def e_def st3_def st5_def st6_def by (rule refl)
  have r3: "disciplined st6 (emit (ObserverFinish b s e pk fin) st6)" for b pk
    by (rule disciplined_call) simp_all
  have a8: "disciplined st6 (snd (exit_span s ob errptr rc fin st))"
    unfolding a7 by (cases ob) (simp_all add: r3)
  show ?thesis
    by (rule disciplined_trans [OF a5 disciplined_trans [OF a6 a8]])
qed

lemma lock_discipline_start_events: "lock_discipline (start_events c f xs i tr now st)"
  unfolding start_events_def Let_def
  by (cases "resolved_parent st c tr"; cases "start_observer st c tr")
     (simp_all add: lock_discipline_def)

lemma disciplined_newSpan: "disciplined st (snd (snd (newSpan c f xs i tr now st)))"
  by (rule disciplinedI [OF newSpan_events lock_discipline_start_events])

lemma events_Annotate: "events (Annotate s n v st) = events st @ [Lock s, Unlock s]"
  by (simp add: Annotate_def Let_def split: prod.splits)

lemma events_Annotations: "events (snd (Annotations s st)) = events st @ [Lock s, Unlock s]"
  by (simp add: Annotations_def Annotations_read_def Annotations_copy_def Let_def split: prod.splits)

lemma events_Orphaned: "events (snd (Orphaned s st)) = events st @ [Lock s, Unlock s]"
  by (simp add: Orphaned_def Let_def)

lemma events_fold_Visit: "events (fold (\<lambda>c. emit (Visit c)) cs st) = events st @ map Visit cs"
  by (induction cs arbitrary: st) simp_all

lemma lock_discipline_Visit: "lock_discipline (map Visit cs)"
  by (induction cs) (simp_all add: lock_discipline_def)

lemma events_Children:
  "events (Children s st) = events st @ ([Lock s, Unlock s] @
     map Visit (spanSorter (spans st)
       (fold (\<lambda>c acc. if c \<in> set acc then acc else acc @ [c])
          (bag_Iterate (children (spans st ! s))) [])))"
  by (simp add: Children_def Let_def events_fold_Visit)

lemma disciplined_perform: "disciplined st (perform op st)"
proof (cases op)
  case (OpAnnotate s n v)
  then show ?thesis by (simp add: disciplinedI [OF events_Annotate])
next
  case (OpAnnotations s)
  have "disciplined st (snd (Annotations s st))"
    by (rule disciplinedI [OF events_Annotations]) simp
  then show ?thesis
    unfolding OpAnnotations by (cases "Annotations s st") (simp add: disciplined_def emitted_def)
next
  case (OpOrphaned s)
  then show ?thesis by (simp add: disciplinedI [OF events_Orphaned])
next
  case (OpChildren s)
  have "disciplined st (Children s st)"
    by (rule disciplinedI [OF events_Children], rule lock_discipline_append)
       (simp_all add: lock_discipline_Visit)
  then show ?thesis by (simp add: OpChildren)
next
  case (OpSetObserver t ob)
  then show ?thesis by (simp add: disciplined_same_events setObserver_def)
next
  case (OpClientWrite k i a)
  then show ?thesis by (simp add: disciplined_same_events client_write_def)
next
  case (OpClientAppend k a)
  then show ?thesis
    by (simp add: disciplined_same_events client_append_def Let_def split: prod.splits)
qed (simp_all add: disciplined_newSpan disciplined_exit_span disciplined_orphan
      disciplined_addChild disciplined_removeChild)

lemma disciplined_step: "disciplined st (step op st)"
  by (simp add: step_def disciplined_perform)

lemma disciplined_run: "disciplined st (run ops st)"
  unfolding run_def
proof (induction ops arbitrary: st)
  case Nil
  show ?case by simp
next
  case (Cons op ops)
  show ?case
    using disciplined_trans [OF disciplined_step Cons.IH] by simp
qed

subsection \<open>The store of backing arrays\<close>

lemma separate_sym: "separate a b = separate b a"
  by (auto simp add: separate_def)

lemma ok_slice_nil [simp]: "ok_slice mem nil_slice"
  by (simp add: ok_slice_def nil_slice_def)

lemma separate_nil [simp]: "separate a nil_slice" "separate nil_slice a"
  by (simp_all add: separate_def nil_slice_def)

lemma go_append_inplace:
  "len sl < cap sl \<Longrightarrow>
   go_append mem sl a = (sl\<lparr>len := len sl + 1\<rparr>, mem[ptr sl := (mem ! ptr sl)[len sl := a]])"
  by (simp add: go_append_def)

lemma go_append_realloc:
  "\<not> len sl < cap sl \<Longrightarrow>
   go_append mem sl a =
     (\<lparr>ptr = length mem, len = len sl + 1, cap = growcap (cap sl) (len sl + 1)\<rparr>,
      mem @ [take (len sl) (mem ! ptr sl) @ [a] @
             replicate (growcap (cap sl) (len sl + 1) - (len sl + 1)) zero_Annotation])"
  by (simp add: go_append_def Let_def)

lemma growcap_fits: "needed \<le> growcap oldcap needed"
  by (simp add: growcap_def)

lemma ok_slice_len: "ok_slice mem sl \<Longrightarrow> len sl \<le> length (mem ! ptr sl) \<or> len sl = 0"
  by (auto simp add: ok_slice_def)

lemma take_len_ok: "ok_slice mem sl \<Longrightarrow> length (take (len sl) (mem ! ptr sl)) = len sl"
  using ok_slice_len [of mem sl] by auto

lemma go_append_ok:
  assumes "ok_slice mem sl"
  shows "ok_slice (snd (go_append mem sl a)) (fst (go_append mem sl a))"
proof (cases "len sl < cap sl")
  case True
  then show ?thesis
    using assms by (simp add: go_append_inplace ok_slice_def)
next
  case False
  have "len sl + 1 \<le> growcap (cap sl) (len sl + 1)" by (rule growcap_fits)
  then show ?thesis
    using False take_len_ok [OF assms]
    by (simp add: go_append_realloc ok_slice_def)
qed

lemma go_append_contents:
  assumes "ok_slice mem sl"
  shows "slice_contents (snd (go_append mem sl a)) (fst (go_append mem sl a)) =
           slice_contents mem sl @ [a]"
proof (cases "len sl < cap sl")
  case True
  then have "len sl < length (mem ! ptr sl)" and "ptr sl < length mem"
    using assms by (simp_all add: ok_slice_def)
  then show ?thesis
    using True by (simp add: go_append_inplace slice_contents_def take_Suc_conv_app_nth)
next
  case False
  then show ?thesis
    using take_len_ok [OF assms]
    by (simp add: go_append_realloc slice_contents_def)
qed

lemma go_append_keeps_ok:
  assumes "ok_slice mem t"
  shows "ok_slice (snd (go_append mem sl a)) t"
proof (cases "len sl < cap sl")
  case True
  then show ?thesis
    using assms by (simp add: go_append_inplace ok_slice_def nth_list_update_any)
next
  case False
  then show ?thesis
    using assms by (auto simp add: go_append_realloc ok_slice_def nth_append)
qed

lemma go_append_frame:
  assumes "ok_slice mem t" and "separate t sl"
  shows "slice_contents (snd (go_append mem sl a)) t = slice_contents mem t"
proof (cases "len sl < cap sl")
  case True
  show ?thesis
  proof (cases "0 < cap t")
    case c: True
    then have "ptr t \<noteq> ptr sl" using assms(2) True by (simp add: separate_def)
    then show ?thesis
      using True by (simp add: go_append_inplace slice_contents_def)
  next
    case False
    then have "len t = 0" using assms(1) by (simp add: ok_slice_def)
    then show ?thesis by (simp add: slice_contents_def)
  qed
next
  case False
  show ?thesis
  proof (cases "0 < cap t")
    case True
    then have "ptr t < length mem" using assms(1) by (simp add: ok_slice_def)
    then show ?thesis
      using False by (simp add: go_append_realloc slice_contents_def nth_append)
  next
    case f: False
    then have "len t = 0" using assms(1) by (simp add: ok_slice_def)
    then show ?thesis by (simp add: slice_contents_def)
  qed
qed

lemma go_append_fresh:
  assumes "ok_slice mem t" and "separate t sl"
  shows "separate t (fst (go_append mem sl a))"
proof (cases "len sl < cap sl")
  case True
  then show ?thesis
    using assms(2) by (simp add: go_append_inplace separate_def)
next
  case False
  then show ?thesis
    using assms(1) by (auto simp add: go_append_realloc separate_def ok_slice_def)
qed

lemma copy_slice_cases:
  "copy_slice mem src =
     (if len src = 0 then (nil_slice, mem)
      else (\<lparr>ptr = length mem, len = len src, cap = len src\<rparr>,
            mem @ [take (len src) (mem ! ptr src)]))"
  by (simp add: copy_slice_def growcap_def Let_def)

lemma copy_slice_ok:
  assumes "ok_slice mem src"
  shows "ok_slice (snd (copy_slice mem src)) (fst (copy_slice mem src))"
  using take_len_ok [OF assms] by (auto simp add: copy_slice_cases ok_slice_def nil_slice_def)

lemma copy_slice_contents:
  assumes "ok_slice mem src"
  shows "slice_contents (snd (copy_slice mem src)) (fst (copy_slice mem src)) =
           slice_contents mem src"
  using take_len_ok [OF assms]
  by (simp add: copy_slice_cases slice_contents_def nil_slice_def)

lemma copy_slice_keeps_ok:
  assumes "ok_slice mem t"
  shows "ok_slice (snd (copy_slice mem src)) t"
  using assms by (auto simp add: copy_slice_cases ok_slice_def nth_append)

lemma copy_slice_frame:
  assumes "ok_slice mem t"
  shows "slice_contents (snd (copy_slice mem src)) t = slice_contents mem t"
proof (cases "0 < cap t")
  case True
  then have "ptr t < length mem" using assms by (simp add: ok_slice_def)
  then show ?thesis by (simp add: copy_slice_cases slice_contents_def nth_append)
next
  case False
  then have "len t = 0" using assms by (simp add: ok_slice_def)
  then show ?thesis by (simp add: slice_contents_def)
qed

lemma copy_slice_fresh:
  assumes "ok_slice mem t"
  shows "separate t (fst (copy_slice mem src))"
  using assms by (auto simp add: copy_slice_cases separate_def ok_slice_def nil_slice_def)

lemma ann_frame_refl [simp]: "ann_frame st st"
  by (simp add: ann_frame_def)

lemma ann_frame_trans:
  assumes "ann_frame a b" and "ann_frame b c"
  shows "ann_frame a c"
  unfolding ann_frame_def
proof (intro conjI allI impI)
  show "arrays c = arrays a" "handed_out c = handed_out a" "length (spans a) \<le> length (spans c)"
    using assms by (simp_all add: ann_frame_def)
next
  fix r assume r: "r < length (spans c)"
  have ab: "length (spans a) \<le> length (spans b)" using assms(1) by (simp add: ann_frame_def)
  have c: "annotations (spans c ! r) =
      (if r < length (spans b) then annotations (spans b ! r) else nil_slice)"
    using assms(2) r by (simp add: ann_frame_def)
  show "annotations (spans c ! r) =
      (if r < length (spans a) then annotations (spans a ! r) else nil_slice)"
  proof (cases "r < length (spans b)")
    case True
    then show ?thesis using assms(1) c by (simp add: ann_frame_def)
  next
    case False
    then show ?thesis using c ab by simp
  qed
qed

lemma ann_frame_emit: "ann_frame st (emit e st)"
  by (simp add: ann_frame_def)

lemma ann_frame_upd_span:
  assumes "\<And>x. annotations (g x) = annotations x"
  shows "ann_frame st (upd_span s g st)"
  unfolding ann_frame_def using assms by (simp add: nth_list_update_any)

lemma ann_frame_orphan: "ann_frame st (orphan s st)"
  unfolding ann_frame_def by (simp add: spans_orphan nth_list_update_any)

lemma ann_frame_fold_orphan: "ann_frame st (fold orphan cs st)"
proof (induction cs arbitrary: st)
  case Nil
  show ?case by simp
next
  case (Cons c cs)
  show ?case
    using ann_frame_trans [OF ann_frame_orphan Cons.IH] by simp
qed

lemma ann_frame_removeChild: "ann_frame st (removeChild p c st)"
  unfolding ann_frame_def by (simp add: spans_removeChild nth_list_update_any)

lemma ann_frame_addChild: "ann_frame st (addChild p c st)"
proof -
  define st3 where "st3 = emit (Unlock p)
     (upd_span p (\<lambda>x. x\<lparr>children := bag_Add c (children x)\<rparr>) (emit (Lock p) st))"
  have a: "ann_frame st st3"
    unfolding ann_frame_def st3_def by (simp add: nth_list_update_any)
  have "addChild p c st = (if done' (spans st3 ! p) then orphan c st3 else st3)"
    unfolding addChild_def Let_def st3_def by simp
  then show ?thesis
    using a ann_frame_trans [OF a ann_frame_orphan] by simp
qed

lemma ann_frame_exit_span: "ann_frame st (snd (exit_span s ob errptr rc fin st))"
proof -
  define e where "e = (case errptr of None \<Rightarrow> None | Some (x::err) \<Rightarrow> x)"
  define st3 where "st3 = upd_span s (\<lambda>x. x\<lparr>done' := True\<rparr>) (emit (Lock s)
       (emit (FuncEnd (func (spans st ! s)) e (rc \<noteq> None) (fin - start (spans st ! s))) st))"
  define st5 where "st5 = fold orphan (bag_Iterate (children (spans st3 ! s))) (emit (Unlock s) st3)"
  define st6 where "st6 = (case parent (spans st5 ! s) of
                   Some p \<Rightarrow> (if orphaned (spans st3 ! s) then emit (OrphanEnd s) (removeChild p s st5)
                              else removeChild p s st5)
                 | None \<Rightarrow> emit (RootSpanEnd s) st5)"
  have a3: "ann_frame st st3"
    unfolding ann_frame_def st3_def by (simp add: nth_list_update_any)
  have a4: "ann_frame st3 (emit (Unlock s) st3)" by (rule ann_frame_emit)
  have a5: "ann_frame st st5"
    unfolding st5_def
    by (rule ann_frame_trans [OF a3 ann_frame_trans [OF a4 ann_frame_fold_orphan]])
  have r2: "ann_frame st5 (emit (OrphanEnd s) (removeChild p s st5))" for p
    by (rule ann_frame_trans [OF ann_frame_removeChild ann_frame_emit])
  have a6: "ann_frame st5 st6"
    unfolding st6_def
    by (cases "parent (spans st5 ! s)") (simp_all add: r2 ann_frame_emit ann_frame_removeChild)
  have a7: "snd (exit_span s ob errptr rc fin st) =
      (case ob of Some b \<Rightarrow> emit (ObserverFinish b s e (rc \<noteq> None) fin) st6 | None \<Rightarrow> st6)"
    unfolding exit_span_stages Let_def e_def st3_def st5_def st6_def by (rule refl)
  have a8: "ann_frame st6 (snd (exit_span s ob errptr rc fin st))"
    unfolding a7 by (cases ob) (simp_all add: ann_frame_emit)
  show ?thesis
    by (rule ann_frame_trans [OF a5 ann_frame_trans [OF a6 a8]])
qed

lemma newSpan_arrays [simp]:
  "arrays (snd (snd (newSpan c f xs i tr now st))) = arrays st"
  "handed_out (snd (snd (newSpan c f xs i tr now st))) = handed_out st"
  by (cases "start_observer st c tr"; cases "resolved_parent st c tr"; simp add: newSpan_eq)+

lemma ann_frame_newSpan: "ann_frame st (snd (snd (newSpan c f xs i tr now st)))"
proof -
  have "annotations (spans (snd (snd (newSpan c f xs i tr now st))) ! r) =
      (if r < length (spans st) then annotations (spans st ! r) else nil_slice)"
    if r: "r < Suc (length (spans st))" for r
  proof -
    have le: "r \<le> length (spans st)" using r by simp
    have h: "annotations ((spans st @ [new_span c f xs i tr now st]) ! r) =
        (if r < length (spans st) then annotations (spans st ! r) else nil_slice)"
      using le by (simp add: nth_append new_span_def)
    have "annotations (spans (snd (snd (newSpan c f xs i tr now st))) ! r) =
        annotations ((spans st @ [new_span c f xs i tr now st]) ! r)"
      unfolding newSpan_spans_nth [OF le] Let_def
      by (cases "resolved_parent st c tr") simp_all
    then show ?thesis using h by simp
  qed
  then show ?thesis
    by (simp add: ann_frame_def)
qed

lemma ann_frame_store_ok:
  assumes "ann_frame st st'" and "store_ok st"
  shows "store_ok st'"
proof -
  have mem: "arrays st' = arrays st" and ho: "handed_out st' = handed_out st"
    using assms(1) by (simp_all add: ann_frame_def)
  have an: "annotations (spans st' ! r) =
      (if r < length (spans st) then annotations (spans st ! r) else nil_slice)"
    if "r < length (spans st')" for r
    using assms(1) that by (simp add: ann_frame_def)
  show ?thesis
    unfolding store_ok_def mem ho
    using assms(2) by (auto simp add: an store_ok_def)
qed

lemma ann_frame_contents:
  assumes "ann_frame st st'" and "r < length (spans st)"
  shows "span_annotations st' r = span_annotations st r"
  using assms by (simp add: ann_frame_def span_annotations_def)

lemma arrays_Annotate:
  "arrays (Annotate s n v st) =
     snd (go_append (arrays st) (annotations (spans st ! s)) \<lparr>Name = n, Value = v\<rparr>)"
  and handed_out_Annotate [simp]: "handed_out (Annotate s n v st) = handed_out st"
  by (simp_all add: Annotate_def Let_def split: prod.splits)

lemma Annotate_effect:
  assumes ok: "store_ok st" and s: "s < length (spans st)"
  shows "store_ok (Annotate s n v st) \<and>
     (\<forall>r < length (spans st).
        span_annotations (Annotate s n v st) r =
          span_annotations st r @ (if r = s then [\<lparr>Name = n, Value = v\<rparr>] else []))"
proof -
  define a where "a = \<lparr>Name = n, Value = v\<rparr>"
  define mem where "mem = arrays st"
  define sl where "sl = annotations (spans st ! s)"
  define sl' where "sl' = fst (go_append mem sl a)"
  define mem' where "mem' = snd (go_append mem sl a)"
  define ann where "ann = (\<lambda>r. annotations (spans st ! r))"
  define st' where "st' = Annotate s n v st"
  have sp: "annotations (spans st' ! r) = (if r = s then sl' else ann r)"
    if "r < length (spans st)" for r
    using that s
    by (simp add: st'_def spans_Annotate nth_list_update sl'_def sl_def mem_def a_def ann_def)
  have len: "length (spans st') = length (spans st)"
    by (simp add: st'_def spans_Annotate)
  have ar: "arrays st' = mem'"
    by (simp add: st'_def arrays_Annotate mem'_def mem_def sl_def a_def)
  have ho: "handed_out st' = handed_out st" by (simp add: st'_def)
  have ok1: "ok_slice mem (ann r)" if "r < length (spans st)" for r
    using ok that by (simp add: store_ok_def mem_def ann_def)
  have ok2: "ok_slice mem (handed_out st ! k)" if "k < length (handed_out st)" for k
    using ok that by (simp add: store_ok_def mem_def)
  have sep3: "separate (ann r) (ann r')"
    if "r < length (spans st)" "r' < length (spans st)" "r \<noteq> r'" for r r'
    using ok that by (simp add: store_ok_def ann_def)
  have sep4: "separate (ann r) (handed_out st ! k)"
    if "r < length (spans st)" "k < length (handed_out st)" for r k
    using ok that by (simp add: store_ok_def ann_def)
  have sl: "sl = ann s" by (simp add: sl_def ann_def)
  have oksl: "ok_slice mem sl" unfolding sl using s by (rule ok1)
  have n1: "ok_slice mem' sl'"
    unfolding mem'_def sl'_def using oksl by (rule go_append_ok)
  have n2: "ok_slice mem' t" if "ok_slice mem t" for t
    unfolding mem'_def using that by (rule go_append_keeps_ok)
  have n3: "separate (ann r) sl'" if "r < length (spans st)" "r \<noteq> s" for r
    unfolding sl'_def
    using ok1 [OF that(1)] sep3 [OF that(1) s that(2)] sl by (simp add: go_append_fresh)
  have n4: "separate sl' (handed_out st ! k)" if "k < length (handed_out st)" for k
  proof -
    have "separate (handed_out st ! k) sl"
      using sep4 [OF s that] sl by (simp add: separate_sym)
    then have "separate (handed_out st ! k) sl'"
      unfolding sl'_def using ok2 [OF that] by (simp add: go_append_fresh)
    then show ?thesis by (simp add: separate_sym)
  qed
  have c1: "slice_contents mem' sl' = slice_contents mem sl @ [a]"
    unfolding mem'_def sl'_def using oksl by (rule go_append_contents)
  have c2: "slice_contents mem' (ann r) = slice_contents mem (ann r)"
    if "r < length (spans st)" "r \<noteq> s" for r
    unfolding mem'_def
    using ok1 [OF that(1)] sep3 [OF that(1) s that(2)] sl by (simp add: go_append_frame)
  have g1: "\<forall>r < length (spans st'). ok_slice (arrays st') (annotations (spans st' ! r))"
    using n1 n2 ok1 by (simp add: len ar sp)
  have g2: "\<forall>k < length (handed_out st'). ok_slice (arrays st') (handed_out st' ! k)"
    using n2 ok2 by (simp add: ar ho)
  have g3: "\<forall>r < length (spans st'). \<forall>r' < length (spans st'). r \<noteq> r' \<longrightarrow>
          separate (annotations (spans st' ! r)) (annotations (spans st' ! r'))"
  proof (intro allI impI)
    fix r r' assume h: "r < length (spans st')" "r' < length (spans st')" "r \<noteq> r'"
    then have r: "r < length (spans st)" and r': "r' < length (spans st)" by (simp_all add: len)
    show "separate (annotations (spans st' ! r)) (annotations (spans st' ! r'))"
    proof (cases "r = s")
      case True
      then have ne: "r' \<noteq> s" using h(3) by simp
      have "separate sl' (ann r')"
        using n3 [OF r' ne] by (subst separate_sym)
      then show ?thesis
        using True ne by (simp add: sp r r' s)
    next
      case False
      show ?thesis
      proof (cases "r' = s")
        case True
        then show ?thesis using n3 [OF r False] False by (simp add: sp r r' s)
      next
        case f: False
        then show ?thesis using sep3 [OF r r' h(3)] False by (simp add: sp r r')
      qed
    qed
  qed
  have g4: "\<forall>r < length (spans st'). \<forall>k < length (handed_out st').
          separate (annotations (spans st' ! r)) (handed_out st' ! k)"
    using n4 sep4 by (simp add: len ho sp)
  have g5: "\<forall>r < length (spans st).
        span_annotations st' r = span_annotations st r @ (if r = s then [a] else [])"
    using c1 c2 sl by (simp add: span_annotations_def sp ar mem_def [symmetric] ann_def)
  show ?thesis
    using g1 g2 g3 g4 g5 unfolding store_ok_def st'_def a_def by blast
qed

lemma Annotations_state:
  "spans (snd (Annotations s st)) = spans st"
  "handed_out (snd (Annotations s st)) = handed_out st"
  "arrays (snd (Annotations s st)) = snd (copy_slice (arrays st) (annotations (spans st ! s)))"
  "fst (Annotations s st) = fst (copy_slice (arrays st) (annotations (spans st ! s)))"
  by (simp_all add: Annotations_def Annotations_read_def Annotations_copy_def Let_def
      split: prod.splits)

lemma Annotations_effect:
  assumes ok: "store_ok st" and s: "s < length (spans st)"
  shows "store_ok (perform (OpAnnotations s) st) \<and>
     slice_contents (arrays (snd (Annotations s st))) (fst (Annotations s st)) =
       span_annotations st s \<and>
     (\<forall>r < length (spans st).
        span_annotations (perform (OpAnnotations s) st) r = span_annotations st r)"
proof -
  define mem where "mem = arrays st"
  define sl where "sl = annotations (spans st ! s)"
  define rv where "rv = fst (copy_slice mem sl)"
  define mem' where "mem' = snd (copy_slice mem sl)"
  define st' where "st' = perform (OpAnnotations s) st"
  have sp: "spans st' = spans st" and ar: "arrays st' = mem'"
    and ho: "handed_out st' = handed_out st @ [rv]"
    by (simp_all add: st'_def mem'_def rv_def mem_def sl_def Annotations_state
        case_prod_beta Let_def)
  have ok1: "ok_slice mem (annotations (spans st ! r))" if "r < length (spans st)" for r
    using ok that by (simp add: store_ok_def mem_def)
  have ok2: "ok_slice mem (handed_out st ! k)" if "k < length (handed_out st)" for k
    using ok that by (simp add: store_ok_def mem_def)
  have oksl: "ok_slice mem sl" unfolding sl_def using s by (rule ok1)
  have n1: "ok_slice mem' rv" unfolding mem'_def rv_def using oksl by (rule copy_slice_ok)
  have n2: "ok_slice mem' t" if "ok_slice mem t" for t
    unfolding mem'_def using that by (rule copy_slice_keeps_ok)
  have n3: "separate t rv" if "ok_slice mem t" for t
    unfolding rv_def using that by (rule copy_slice_fresh)
  have c1: "slice_contents mem' rv = slice_contents mem sl"
    unfolding mem'_def rv_def using oksl by (rule copy_slice_contents)
  have c2: "slice_contents mem' t = slice_contents mem t" if "ok_slice mem t" for t
    unfolding mem'_def using that by (rule copy_slice_frame)
  have g1: "\<forall>r < length (spans st'). ok_slice (arrays st') (annotations (spans st' ! r))"
    using n2 ok1 by (simp add: sp ar)
  have g2: "\<forall>k < length (handed_out st'). ok_slice (arrays st') (handed_out st' ! k)"
    using n1 n2 ok2 by (simp add: ar ho nth_append less_Suc_eq)
  have g3: "\<forall>r < length (spans st'). \<forall>r' < length (spans st'). r \<noteq> r' \<longrightarrow>
          separate (annotations (spans st' ! r)) (annotations (spans st' ! r'))"
    using ok by (simp add: sp store_ok_def)
  have g4: "\<forall>r < length (spans st'). \<forall>k < length (handed_out st').
          separate (annotations (spans st' ! r)) (handed_out st' ! k)"
  proof (intro allI impI)
    fix r k assume h: "r < length (spans st')" "k < length (handed_out st')"
    then have r: "r < length (spans st)" by (simp add: sp)
    show "separate (annotations (spans st' ! r)) (handed_out st' ! k)"
    proof (cases "k < length (handed_out st)")
      case True
      then show ?thesis using ok r by (simp add: sp ho nth_append store_ok_def)
    next
      case False
      then have "k = length (handed_out st)" using h(2) by (simp add: ho)
      then show ?thesis using n3 [OF ok1 [OF r]] by (simp add: sp ho)
    qed
  qed
  have g5: "\<forall>r < length (spans st). span_annotations st' r = span_annotations st r"
    using c2 ok1 by (simp add: span_annotations_def sp ar mem_def [symmetric])
  have g6: "slice_contents (arrays (snd (Annotations s st))) (fst (Annotations s st)) =
       span_annotations st s"
    using c1
    by (simp add: Annotations_state span_annotations_def mem'_def rv_def mem_def sl_def)
  show ?thesis
    using g1 g2 g3 g4 g5 g6 unfolding store_ok_def st'_def by blast
qed

lemma write_keeps_ok:
  "ok_slice mem t \<Longrightarrow> ok_slice (mem[p := (mem ! p)[i := a]]) t"
  by (simp add: ok_slice_def nth_list_update_any)

lemma client_write_effect:
  assumes ok: "store_ok st"
  shows "store_ok (client_write k i a st) \<and>
     (\<forall>r < length (spans st). span_annotations (client_write k i a st) r = span_annotations st r)"
proof (cases "k < length (handed_out st) \<and> i < len (handed_out st ! k)")
  case False
  then have "client_write k i a st = st" by (auto simp add: client_write_def)
  then show ?thesis using ok by simp
next
  case True
  define mem where "mem = arrays st"
  define p where "p = ptr (handed_out st ! k)"
  define mem' where "mem' = mem[p := (mem ! p)[i := a]]"
  define st' where "st' = client_write k i a st"
  have sp: "spans st' = spans st" and ho: "handed_out st' = handed_out st"
    and ar: "arrays st' = mem'"
    using True by (simp_all add: st'_def client_write_def mem'_def mem_def p_def)
  have okk: "ok_slice mem (handed_out st ! k)"
    using ok True by (simp add: store_ok_def mem_def)
  then have capk: "0 < cap (handed_out st ! k)"
    using True by (simp add: ok_slice_def)
  have c: "slice_contents mem' (annotations (spans st ! r)) =
      slice_contents mem (annotations (spans st ! r))" if r: "r < length (spans st)" for r
  proof (cases "0 < cap (annotations (spans st ! r))")
    case c: True
    have "separate (annotations (spans st ! r)) (handed_out st ! k)"
      using ok r True by (simp add: store_ok_def)
    then have "ptr (annotations (spans st ! r)) \<noteq> p"
      using c capk by (simp add: separate_def p_def)
    then show ?thesis by (simp add: slice_contents_def mem'_def)
  next
    case False
    moreover have "ok_slice mem (annotations (spans st ! r))"
      using ok r by (simp add: store_ok_def mem_def)
    ultimately have "len (annotations (spans st ! r)) = 0" by (simp add: ok_slice_def)
    then show ?thesis by (simp add: slice_contents_def)
  qed
  have g: "store_ok st'"
    using ok unfolding store_ok_def sp ho ar mem'_def mem_def
    by (simp add: write_keeps_ok)
  show ?thesis
    using g c by (simp add: st'_def [symmetric] span_annotations_def sp ar mem_def [symmetric])
qed

lemma client_append_effect:
  assumes ok: "store_ok st"
  shows "store_ok (client_append k a st) \<and>
     (\<forall>r < length (spans st). span_annotations (client_append k a st) r = span_annotations st r)"
proof (cases "k < length (handed_out st)")
  case False
  then show ?thesis using ok by (simp add: client_append_def span_annotations_def)
next
  case True
  define mem where "mem = arrays st"
  define sl where "sl = handed_out st ! k"
  define sl' where "sl' = fst (go_append mem sl a)"
  define mem' where "mem' = snd (go_append mem sl a)"
  define st' where "st' = client_append k a st"
  have sp: "spans st' = spans st" and ho: "handed_out st' = (handed_out st)[k := sl']"
    and ar: "arrays st' = mem'"
    using True
    by (simp_all add: st'_def client_append_def mem'_def sl'_def mem_def sl_def Let_def
        split: prod.splits)
  have ok1: "ok_slice mem (annotations (spans st ! r))" if "r < length (spans st)" for r
    using ok that by (simp add: store_ok_def mem_def)
  have ok2: "ok_slice mem (handed_out st ! j)" if "j < length (handed_out st)" for j
    using ok that by (simp add: store_ok_def mem_def)
  have sep4: "separate (annotations (spans st ! r)) sl" if "r < length (spans st)" for r
    using ok that True by (simp add: store_ok_def sl_def)
  have oksl: "ok_slice mem sl" unfolding sl_def using True by (rule ok2)
  have n1: "ok_slice mem' sl'" unfolding mem'_def sl'_def using oksl by (rule go_append_ok)
  have n2: "ok_slice mem' t" if "ok_slice mem t" for t
    unfolding mem'_def using that by (rule go_append_keeps_ok)
  have n3: "separate (annotations (spans st ! r)) sl'" if "r < length (spans st)" for r
    unfolding sl'_def using ok1 [OF that] sep4 [OF that] by (rule go_append_fresh)
  have c2: "slice_contents mem' (annotations (spans st ! r)) =
      slice_contents mem (annotations (spans st ! r))" if "r < length (spans st)" for r
    unfolding mem'_def using ok1 [OF that] sep4 [OF that] by (rule go_append_frame)
  have g1: "\<forall>r < length (spans st'). ok_slice (arrays st') (annotations (spans st' ! r))"
    using n2 ok1 by (simp add: sp ar)
  have g2: "\<forall>j < length (handed_out st'). ok_slice (arrays st') (handed_out st' ! j)"
    using n1 n2 ok2 by (simp add: ar ho nth_list_update_any)
  have g3: "\<forall>r < length (spans st'). \<forall>r' < length (spans st'). r \<noteq> r' \<longrightarrow>
          separate (annotations (spans st' ! r)) (annotations (spans st' ! r'))"
    using ok by (simp add: sp store_ok_def)
  have g4: "\<forall>r < length (spans st'). \<forall>j < length (handed_out st').
          separate (annotations (spans st' ! r)) (handed_out st' ! j)"
    using n3 ok by (simp add: sp ho nth_list_update_any store_ok_def)
  have g5: "\<forall>r < length (spans st). span_annotations st' r = span_annotations st r"
    using c2 by (simp add: span_annotations_def sp ar mem_def [symmetric])
  show ?thesis
    using g1 g2 g3 g4 g5 unfolding store_ok_def st'_def by blast
qed

lemma ann_frame_same:
  "spans st' = spans st \<Longrightarrow> arrays st' = arrays st \<Longrightarrow> handed_out st' = handed_out st \<Longrightarrow>
   ann_frame st st'"
  by (simp add: ann_frame_def)

lemma fold_emit_store [simp]:
  "arrays (fold (\<lambda>c. emit (g c)) cs st) = arrays st"
  "handed_out (fold (\<lambda>c. emit (g c)) cs st) = handed_out st"
  by (induction cs arbitrary: st) simp_all

lemma ann_frame_perform:
  assumes "\<And>s n v. op \<noteq> OpAnnotate s n v" and "\<And>s. op \<noteq> OpAnnotations s"
    and "\<And>k i a. op \<noteq> OpClientWrite k i a" and "\<And>k a. op \<noteq> OpClientAppend k a"
  shows "ann_frame st (perform op st)"
proof (cases op)
  case (OpOrphaned s)
  then show ?thesis by (simp add: ann_frame_same Orphaned_def Let_def)
next
  case (OpChildren s)
  then show ?thesis by (simp add: ann_frame_same Children_def Let_def)
next
  case (OpSetObserver t ob)
  then show ?thesis by (simp add: ann_frame_same setObserver_def)
qed (use assms in \<open>simp_all add: ann_frame_newSpan ann_frame_exit_span ann_frame_orphan
      ann_frame_addChild ann_frame_removeChild\<close>)

lemma store_step:
  assumes ok: "store_ok st"
  shows "store_ok (step op st) \<and>
     (\<forall>r < length (spans st). span_annotations (step op st) r = span_annotations st r @ appended r [op])"
proof (cases "op_ok st op")
  case False
  then have same: "step op st = st" by (simp add: step_def)
  have "appended r [op] = []" if "r < length (spans st)" for r
    using False that by (cases op) auto
  then show ?thesis using ok by (simp add: same)
next
  case True
  then have st: "step op st = perform op st" by (simp add: step_def)
  show ?thesis
  proof (cases op)
    case (OpAnnotate s n v)
    show ?thesis
      unfolding st using Annotate_effect [OF ok, of s n v] True by (auto simp add: OpAnnotate)
  next
    case (OpAnnotations s)
    show ?thesis
      unfolding st using Annotations_effect [OF ok, of s] True by (simp add: OpAnnotations)
  next
    case (OpClientWrite k i a)
    show ?thesis
      unfolding st using client_write_effect [OF ok, of k i a] by (simp add: OpClientWrite)
  next
    case (OpClientAppend k a)
    show ?thesis
      unfolding st using client_append_effect [OF ok, of k a] by (simp add: OpClientAppend)
  next
    case (OpStart c f xs i tr now)
    have fr: "ann_frame st (perform op st)" by (rule ann_frame_perform) (simp_all add: OpStart)
    show ?thesis
      unfolding st using ann_frame_store_ok [OF fr ok] ann_frame_contents [OF fr]
      by (simp add: OpStart)
  next
    case (OpExit s ob errptr rc fin)
    have fr: "ann_frame st (perform op st)" by (rule ann_frame_perform) (simp_all add: OpExit)
    show ?thesis
      unfolding st using ann_frame_store_ok [OF fr ok] ann_frame_contents [OF fr]
      by (simp add: OpExit)
  next
    case (OpOrphan s)
    have fr: "ann_frame st (perform op st)" by (rule ann_frame_perform) (simp_all add: OpOrphan)
    show ?thesis
      unfolding st using ann_frame_store_ok [OF fr ok] ann_frame_contents [OF fr]
      by (simp add: OpOrphan)
  next
    case (OpAddChild s c)
    have fr: "ann_frame st (perform op st)" by (rule ann_frame_perform) (simp_all add: OpAddChild)
    show ?thesis
      unfolding st using ann_frame_store_ok [OF fr ok] ann_frame_contents [OF fr]
      by (simp add: OpAddChild)
  next
    case (OpRemoveChild s c)
    have fr: "ann_frame st (perform op st)" by (rule ann_frame_perform) (simp_all add: OpRemoveChild)
    show ?thesis
      unfolding st using ann_frame_store_ok [OF fr ok] ann_frame_contents [OF fr]
      by (simp add: OpRemoveChild)
  next
    case (OpOrphaned s)
    have fr: "ann_frame st (perform op st)" by (rule ann_frame_perform) (simp_all add: OpOrphaned)
    show ?thesis
      unfolding st using ann_frame_store_ok [OF fr ok] ann_frame_contents [OF fr]
      by (simp add: OpOrphaned)
  next
    case (OpChildren s)
    have fr: "ann_frame st (perform op st)" by (rule ann_frame_perform) (simp_all add: OpChildren)
    show ?thesis
      unfolding st using ann_frame_store_ok [OF fr ok] ann_frame_contents [OF fr]
      by (simp add: OpChildren)
  next
    case (OpSetObserver t ob)
    have fr: "ann_frame st (perform op st)" by (rule ann_frame_perform) (simp_all add: OpSetObserver)
    show ?thesis
      unfolding st using ann_frame_store_ok [OF fr ok] ann_frame_contents [OF fr]
      by (simp add: OpSetObserver)
  qed
qed

lemma appended_Cons: "appended r (op # ops) = appended r [op] @ appended r ops"
  by (cases op) simp_all

lemma store_run:
  assumes "store_ok st"
  shows "store_ok (run ops st) \<and>
     (\<forall>r < length (spans st). span_annotations (run ops st) r = span_annotations st r @ appended r ops)"
  using assms
proof (induction ops arbitrary: st)
  case Nil
  then show ?case by (simp add: run_def)
next
  case (Cons op ops)
  have s1: "store_ok (step op st)"
    and c1: "\<And>r. r < length (spans st) \<Longrightarrow>
        span_annotations (step op st) r = span_annotations st r @ appended r [op]"
    using store_step [OF Cons.prems, of op] by simp_all
  have le: "length (spans st) \<le> length (spans (step op st))"
    using flags_kept_step [of st op] by (simp add: flags_kept_def)
  have r: "run (op # ops) st = run ops (step op st)" by (simp add: run_def)
  have s2: "store_ok (run ops (step op st))"
    and c2: "\<And>r. r < length (spans (step op st)) \<Longrightarrow>
        span_annotations (run ops (step op st)) r =
          span_annotations (step op st) r @ appended r ops"
    using Cons.IH [OF s1] by simp_all
  have "span_annotations (run (op # ops) st) r = span_annotations st r @ appended r (op # ops)"
    if "r < length (spans st)" for r
  proof -
    have "r < length (spans (step op st))" using that le by simp
    then show ?thesis
      unfolding r using c2 [of r] c1 [OF that] appended_Cons [of r op ops] by simp
  qed
  then show ?case using s2 by (simp add: r)
qed

lemma store_ok_init: "store_ok init"
  by (simp add: store_ok_def init_def)

lemma handed_out_Annotations_step:
  "s < length (spans st) \<Longrightarrow>
   handed_out (step (OpAnnotations s) st) = handed_out st @ [fst (Annotations s st)] \<and>
   arrays (step (OpAnnotations s) st) = arrays (snd (Annotations s st)) \<and>
   spans (step (OpAnnotations s) st) = spans st"
  by (simp add: step_def case_prod_beta Let_def Annotations_state)

lemmas store_eval = run_def step_def Annotate_def Annotations_def Annotations_read_def
  Annotations_copy_def go_append_def copy_slice_def growcap_def client_write_def client_append_def
  slice_contents_def span_annotations_def SpanFromCtx_def zero_Annotation_def

lemma ex_ops0_val:
  "run ex_ops0 init =
     \<lparr>spans = [\<lparr>span_id = 1, start = 100, func = 7, trace = 0, parent = None,
         args = [], Context = background, done' = False, orphaned = False, children = [],
         annotations = \<lparr>ptr = 0, len = 1, cap = 1\<rparr>\<rparr>],
      traces = [\<lparr>trace_id = 1, observer_of = None\<rparr>],
      arrays = [[\<lparr>Name = ''a'', Value = ''1''\<rparr>]],
      events = [ObserveTrace 7 0, FuncStart 7 None, RootSpanStart 0, Lock 0, Unlock 0],
      handed_out = []\<rparr>"
  by (simp add: ex_ops0_def store_eval eval_defs)

lemma ex_copy_val:
  "step (OpAnnotations 0) (run ex_ops0 init) =
     \<lparr>spans = [\<lparr>span_id = 1, start = 100, func = 7, trace = 0, parent = None,
         args = [], Context = background, done' = False, orphaned = False, children = [],
         annotations = \<lparr>ptr = 0, len = 1, cap = 1\<rparr>\<rparr>],
      traces = [\<lparr>trace_id = 1, observer_of = None\<rparr>],
      arrays = [[\<lparr>Name = ''a'', Value = ''1''\<rparr>], [\<lparr>Name = ''a'', Value = ''1''\<rparr>]],
      events = [ObserveTrace 7 0, FuncStart 7 None, RootSpanStart 0, Lock 0, Unlock 0, Lock 0, Unlock 0],
      handed_out = [\<lparr>ptr = 1, len = 1, cap = 1\<rparr>]\<rparr>"
  unfolding ex_ops0_val by (simp add: store_eval)

lemma ex_mutate_val:
  "arrays (run ex_mutate (step (OpAnnotations 0) (run ex_ops0 init))) =
     [[\<lparr>Name = ''a'', Value = ''1''\<rparr>], [\<lparr>Name = ''x'', Value = ''y''\<rparr>],
      [\<lparr>Name = ''a'', Value = ''1''\<rparr>, \<lparr>Name = ''b'', Value = ''2''\<rparr>]]"
  unfolding ex_copy_val by (simp add: ex_mutate_def store_eval upd_span_def emit_def)


subsection \<open>The closure as a deferred call\<close>

text \<open>
  Under a panic whose value is not nil the closure makes the calls of a normal finish
  with \<open>panicked\<close> true, leaves the spans as a normal finish does, and the function
  goes on unwinding with the same value.
\<close>

lemma exit_span_repanics:
  assumes "s < length (spans st)"
  shows "fst (deferred_exit (exit_span s ob) errptr (Panicking (Some v)) fin st) = Panicking (Some v) \<and>
     spans (snd (deferred_exit (exit_span s ob) errptr (Panicking (Some v)) fin st)) =
       spans (snd (deferred_exit (exit_span s ob) errptr Returning fin st)) \<and>
     callbacks (emitted st (snd (deferred_exit (exit_span s ob) errptr (Panicking (Some v)) fin st))) =
       [FuncEnd (func (spans st ! s)) (case errptr of None \<Rightarrow> None | Some e \<Rightarrow> e) True
          (fin - start (spans st ! s))] @
       map OrphanedSpan (filter (\<lambda>c. c \<noteq> s \<and> live st c) (bag_Iterate (children (spans st ! s)))) @
       (case parent (spans st ! s) of
          Some p \<Rightarrow> (if orphaned (spans st ! s) then [OrphanEnd s] else [])
        | None \<Rightarrow> [RootSpanEnd s]) @
       (case ob of
          Some b \<Rightarrow> [ObserverFinish b s (case errptr of None \<Rightarrow> None | Some e \<Rightarrow> e) True fin]
        | None \<Rightarrow> [])"
proof -
  have d: "\<And>u b. deferred_exit (exit_span s b) errptr u fin st =
      (case recover u of None \<Rightarrow> Returning | Some v \<Rightarrow> Panicking (Some v),
       snd (exit_span s b errptr (recover u) fin st))"
    by (simp add: deferred_exit_def split_def exit_span_fst)
  have "callbacks (emitted st (snd (exit_span s ob errptr (Some v) fin st))) =
      finish_callbacks s ob errptr (Some v) fin st"
    by (simp add: emitted_exit_span [OF assms] callbacks_finish_events)
  then show ?thesis
    by (cases ob) (simp_all add: d recover_def exit_span_spans_eq [OF assms] finish_callbacks_def)
qed

section \<open>The claims\<close>

text \<open>
  C3: \<open>orphan\<close> is idempotent and notifies the registry at most once per span. On a span
  that is done or already orphaned it changes no span and makes no call; on any other span
  it sets \<open>orphaned\<close> and calls \<open>orphanedSpan\<close> once. Any number \<open>n\<close> of calls adds
  one \<open>orphanedSpan\<close> notification for the span when there is a call and the span was
  neither done nor orphaned, and none otherwise; calls made after the span's finish
  procedure add none.
\<close>

theorem orphan_exactly_once:
  assumes "s < length (spans st)"
  shows "spans (orphan s (orphan s st)) = spans (orphan s st) \<and>
         callbacks (events (orphan s (orphan s st))) = callbacks (events (orphan s st)) \<and>
         (\<not> live st s \<longrightarrow> spans (orphan s st) = spans st \<and> callbacks (emitted st (orphan s st)) = []) \<and>
         (live st s \<longrightarrow> orphaned (spans (orphan s st) ! s) \<and>
            callbacks (emitted st (orphan s st)) = [OrphanedSpan s]) \<and>
         count_list (events ((orphan s ^^ n) st)) (OrphanedSpan s) =
           count_list (events st) (OrphanedSpan s) + (if 0 < n \<and> live st s then 1 else 0) \<and>
         count_list (events ((orphan s ^^ n) (snd (exit_span s ob errptr rc fin ((orphan s ^^ m) st)))))
             (OrphanedSpan s) =
           count_list (events st) (OrphanedSpan s) + (if 0 < m \<and> live st s then 1 else 0)"
proof -
  have nl: "\<not> live (orphan s st) s" using assms by (rule not_live_orphan)
  have idem: "spans (orphan s (orphan s st)) = spans (orphan s st)"
    using nl by (simp add: spans_orphan [of s "orphan s st"])
  have cb: "callbacks (events (orphan s (orphan s st))) = callbacks (events (orphan s st))"
    using nl by (simp add: events_orphan [of s "orphan s st"] callbacks_def)
  have noop: "\<not> live st s \<longrightarrow> spans (orphan s st) = spans st \<and> callbacks (emitted st (orphan s st)) = []"
    by (simp add: spans_orphan events_orphan emitted_def callbacks_def)
  have op: "live st s \<longrightarrow> orphaned (spans (orphan s st) ! s) \<and>
            callbacks (emitted st (orphan s st)) = [OrphanedSpan s]"
    using assms by (simp add: spans_orphan events_orphan emitted_def callbacks_def)
  define st1 where "st1 = (orphan s ^^ m) st"
  define st2 where "st2 = snd (exit_span s ob errptr rc fin st1)"
  have len1: "s < length (spans st1)" using assms by (simp add: st1_def)
  have c1: "count_list (events st1) (OrphanedSpan s) =
           count_list (events st) (OrphanedSpan s) + (if 0 < m \<and> live st s then 1 else 0)"
    unfolding st1_def using assms by (rule count_funpow_orphan)
  have c2: "count_list (events st2) (OrphanedSpan s) = count_list (events st1) (OrphanedSpan s)"
    unfolding st2_def by (simp add: exit_span_events [OF len1] count_finish_events)
  have "done' (spans st2 ! s)" unfolding st2_def using len1 by (rule exit_span_done)
  then have nl2: "\<not> live st2 s" by (simp add: live_def)
  have len2: "s < length (spans st2)" using len1 by (simp add: st2_def)
  have c3: "count_list (events ((orphan s ^^ n) st2)) (OrphanedSpan s) =
      count_list (events st2) (OrphanedSpan s)"
    using count_funpow_orphan [OF len2, of n] nl2 by simp
  show ?thesis
    using idem cb noop op count_funpow_orphan [OF assms, of n] c1 c2 c3
    unfolding st1_def st2_def by simp
qed

theorem orphan_exactly_once_witness:
  "0 < length (spans ex_root) \<and> live ex_root 0 \<and>
   count_list (events ((orphan 0 ^^ 3) ex_root)) (OrphanedSpan 0) = 1 \<and>
   count_list (events ((orphan 0 ^^ 3) (snd (exit_span 0 None None None 200 ((orphan 0 ^^ 0) ex_root)))))
     (OrphanedSpan 0) = 0"
proof -
  have h: "0 < length (spans ex_root)" by (simp add: ex_root_val)
  have l: "live ex_root 0" by (simp add: live_def ex_root_val)
  have e: "count_list (events ex_root) (OrphanedSpan 0) = 0"
    by (simp add: ex_root_def eval_defs)
  show ?thesis
    using h l e orphan_exactly_once [OF h, of 3 None None None 200 0] by simp
qed

text \<open>
  C1, as the code has it: \<open>newSpan\<close> uses an explicit trace when one is supplied, and
  the new span then has no parent; without an explicit trace the parent is the span that
  the context is or carries under the reserved key (\<open>SpanFromCtx\<close>) and the trace is the
  parent's; with neither, the span has no parent and a new trace is minted and reported
  with \<open>observeTrace\<close>. No other case mints or reports a trace.
\<close>

theorem newSpan_parent_and_trace:
  assumes "newSpan c f xs i tr now st = (s, exit_l, st1)"
  shows "s = length (spans st) \<and>
     parent (spans st1 ! s) = (case tr of Some t \<Rightarrow> None | None \<Rightarrow> SpanFromCtx (spans st) c) \<and>
     trace (spans st1 ! s) =
       (case tr of
          Some t \<Rightarrow> t
        | None \<Rightarrow> (case SpanFromCtx (spans st) c of
                     Some q \<Rightarrow> trace (spans st ! q)
                   | None \<Rightarrow> length (traces st))) \<and>
     traces st1 =
       (if tr = None \<and> SpanFromCtx (spans st) c = None
        then traces st @ [\<lparr>trace_id = i, observer_of = None\<rparr>] else traces st) \<and>
     filter is_observeTrace (emitted st st1) =
       (if tr = None \<and> SpanFromCtx (spans st) c = None
        then [ObserveTrace f (length (traces st))] else [])"
proof -
  have s: "s = length (spans st)" using assms newSpan_fst [of c f xs i tr now st] by simp
  have st1: "st1 = snd (snd (newSpan c f xs i tr now st))" using assms by simp
  have sp: "parent (spans st1 ! s) = resolved_parent st c tr \<and>
            trace (spans st1 ! s) = resolved_trace st c tr"
    unfolding st1 s by (rule newSpan_new_fields)
  have ev: "filter is_observeTrace (emitted st st1) =
       (if mints st c tr then [ObserveTrace f (length (traces st))] else [])"
    unfolding st1 emitted_def newSpan_events start_events_def Let_def
    by (cases "resolved_parent st c tr"; cases "start_observer st c tr") simp_all
  show ?thesis
    using s sp ev newSpan_traces [of c f xs i tr now st]
    unfolding st1 [symmetric] resolved_parent_def resolved_trace_def mints_def by simp
qed

theorem newSpan_parent_and_trace_witness:
  "fst (newSpan (SpanCtx (Some 0)) 7 [] 2 None 150 ex_root) = 1 \<and>
   parent (spans (snd (snd (newSpan (SpanCtx (Some 0)) 7 [] 2 None 150 ex_root))) ! 1) = Some 0 \<and>
   trace (spans (snd (snd (newSpan (SpanCtx (Some 0)) 7 [] 2 None 150 ex_root))) ! 1) = 0 \<and>
   traces (snd (snd (newSpan (SpanCtx (Some 0)) 7 [] 2 None 150 ex_root))) = traces ex_root \<and>
   filter is_observeTrace (emitted ex_root (snd (snd (newSpan background 7 [] 3 None 150 ex_root))))
     = [ObserveTrace 7 1]"
proof -
  obtain s e st1 where h: "newSpan (SpanCtx (Some 0)) 7 [] 2 None 150 ex_root = (s, e, st1)"
    by (rule prod_cases3)
  obtain s' e' st1' where h': "newSpan background 7 [] 3 None 150 ex_root = (s', e', st1')"
    by (rule prod_cases3)
  have sf: "SpanFromCtx (spans ex_root) (SpanCtx (Some 0)) = Some 0"
    by (simp add: SpanFromCtx_def)
  have sf': "SpanFromCtx (spans ex_root) background = None"
    by (simp add: SpanFromCtx_def background_def)
  have l: "length (spans ex_root) = 1" and t: "trace (spans ex_root ! 0) = 0"
    by (simp_all add: ex_root_val)
  have lt: "length (traces ex_root) = 1"
    by (simp add: ex_root_def eval_defs)
  show ?thesis
    using newSpan_parent_and_trace [OF h] newSpan_parent_and_trace [OF h'] h h' sf sf' l t lt
    by auto
qed

text \<open>
  C1 as stated fails: on a context that is a span, with an explicit trace, the new span
  has no parent.
\<close>

theorem newSpan_parent_counterexample:
  "SpanFromCtx (spans ex_root) (SpanCtx (Some 0)) = Some 0 \<and>
   parent (spans (snd (snd (newSpan (SpanCtx (Some 0)) 7 [] 2 (Some 0) 150 ex_root))) ! 1) = None"
  by (simp add: SpanFromCtx_def ex_root_def eval_defs)

text \<open>
  C2: the finish procedure of a span \<open>s\<close> sets \<open>done\<close> and snapshots the child set
  under the span's lock, then calls \<open>orphan\<close> on every child of the snapshot; with a
  parent it removes the span from the parent's child set and reports \<open>orphanEnd\<close>
  exactly when the flag \<open>orphaned\<close> it read under the lock was set; without a parent
  it reports \<open>rootSpanEnd\<close>. The events and the heap after it are those of
  \<open>finish_events\<close> and \<open>finish_span\<close>.
\<close>

theorem finish_protocol:
  assumes "s < length (spans st)"
    and "\<forall>p. parent (spans st ! s) = Some p \<longrightarrow> p < length (spans st)"
    and "st' = snd (exit_span s ob errptr rc fin st)"
  shows "emitted st st' = finish_events s ob errptr rc fin st \<and>
     callbacks (emitted st st') = finish_callbacks s ob errptr rc fin st \<and>
     length (spans st') = length (spans st) \<and>
     (\<forall>r < length (spans st). spans st' ! r = finish_span s st r) \<and>
     done' (spans st' ! s) \<and>
     orphaned (spans st' ! s) = orphaned (spans st ! s) \<and>
     (\<forall>c < length (spans st). c \<noteq> s \<longrightarrow>
        done' (spans st' ! c) = done' (spans st ! c) \<and>
        orphaned (spans st' ! c) =
          (orphaned (spans st ! c) \<or> (c \<in> set (children (spans st ! s)) \<and> \<not> done' (spans st ! c)))) \<and>
     (\<forall>p. parent (spans st ! s) = Some p \<longrightarrow> s \<notin> set (children (spans st' ! p)))"
proof -
  have em: "emitted st st' = finish_events s ob errptr rc fin st"
    unfolding assms(3) using assms(1) by (rule emitted_exit_span)
  have nth: "spans st' ! r = finish_span s st r" if "r < length (spans st)" for r
    unfolding assms(3) using assms(1) that by (rule exit_span_spans)
  have d: "done' (finish_span s st s)"
    by (simp add: finish_span_def Let_def)
  have o: "orphaned (finish_span s st s) = orphaned (spans st ! s)"
    by (simp add: finish_span_def Let_def)
  have c: "done' (finish_span s st c) = done' (spans st ! c) \<and>
        orphaned (finish_span s st c) =
          (orphaned (spans st ! c) \<or> (c \<in> set (children (spans st ! s)) \<and> \<not> done' (spans st ! c)))"
    if "c \<noteq> s" for c
    using that by (auto simp add: finish_span_def Let_def live_def)
  have p: "s \<notin> set (children (finish_span s st p))" if "parent (spans st ! s) = Some p" for p
    using that by (simp add: finish_span_def Let_def bag_Remove_def)
  show ?thesis
    using assms(1,2) em nth d o c p
    by (simp add: callbacks_finish_events assms(3))
qed

theorem finish_protocol_witness:
  "callbacks (emitted ex_child ex_parent_done) =
     [FuncEnd 7 None False 100, OrphanedSpan 1, RootSpanEnd 0] \<and>
   done' (spans ex_parent_done ! 0) \<and> orphaned (spans ex_parent_done ! 1) \<and>
   callbacks (emitted ex_parent_done (snd (exit_span 1 None None None 300 ex_parent_done))) =
     [FuncEnd 8 None False 150, OrphanEnd 1] \<and>
   1 \<notin> set (children (spans (snd (exit_span 1 None None None 300 ex_parent_done)) ! 0))"
proof -
  have a1: "0 < length (spans ex_child)"
    and a2: "\<forall>p. parent (spans ex_child ! 0) = Some p \<longrightarrow> p < length (spans ex_child)"
    by (simp_all add: ex_child_val)
  have b1: "1 < length (spans ex_parent_done)"
    and b2: "\<forall>p. parent (spans ex_parent_done ! 1) = Some p \<longrightarrow> p < length (spans ex_parent_done)"
    by (simp_all add: ex_parent_done_val)
  have c1: "finish_callbacks 0 None None None 200 ex_child =
     [FuncEnd 7 None False 100, OrphanedSpan 1, RootSpanEnd 0]"
    by (simp add: finish_callbacks_def ex_child_val bag_Iterate_def live_def)
  have c2: "finish_callbacks 1 None None None 300 ex_parent_done =
     [FuncEnd 8 None False 150, OrphanEnd 1]"
    by (simp add: finish_callbacks_def ex_parent_done_val bag_Iterate_def live_def)
  note f1 = finish_protocol [OF a1 a2 ex_parent_done_def]
  note f2 = finish_protocol [OF b1 b2 refl [of "snd (exit_span 1 None None None 300 ex_parent_done)"]]
  have g1: "callbacks (emitted ex_child ex_parent_done) = finish_callbacks 0 None None None 200 ex_child"
    using f1 by blast
  have g2: "callbacks (emitted ex_parent_done (snd (exit_span 1 None None None 300 ex_parent_done))) =
      finish_callbacks 1 None None None 300 ex_parent_done"
    using f2 by blast
  have pa: "parent (spans ex_parent_done ! 1) = Some 0"
    by (simp add: ex_parent_done_val)
  have g3: "1 \<notin> set (children (spans (snd (exit_span 1 None None None 300 ex_parent_done)) ! 0))"
    using f2 pa by blast
  have g4: "done' (spans ex_parent_done ! 0)" using f1 by blast
  have g5: "orphaned (spans ex_parent_done ! 1)" by (simp add: ex_parent_done_val)
  show ?thesis
    unfolding g1 g2 c1 c2 using g3 g4 g5 by simp
qed

text \<open>
  C5: a panic with a nil value, \<open>panic(nil)\<close> under the rule of Go before 1.21, is
  not carried through the finish procedure. Span 1 is a root span of call site 9
  started at 150 on trace 0, whose observer is 5. Run as a deferred call under
  \<open>panic(nil)\<close>, its closure does what it does on a normal return: \<open>recover()\<close>
  returns nil, the call-site descriptor's end and the observer's finish are called with
  \<open>panicked\<close> false, and the function returns normally, the panic being lost. Under a
  panic with the value \<open>''fault''\<close> the same calls are made with \<open>panicked\<close> true
  and the function goes on unwinding with that value.
\<close>

theorem nil_panic_is_swallowed:
  "(let (s, exit_l, st) = newSpan background 9 [] 3 (Some 0) 150 ex_observed
    in s = 1 \<and> recover (Panicking None) = None \<and>
       deferred_exit exit_l (Some None) (Panicking None) 300 st =
         deferred_exit exit_l (Some None) Returning 300 st \<and>
       fst (deferred_exit exit_l (Some None) (Panicking None) 300 st) = Returning \<and>
       callbacks (emitted st (snd (deferred_exit exit_l (Some None) (Panicking None) 300 st))) =
         [FuncEnd 9 None False 150, RootSpanEnd 1, ObserverFinish 5 1 None False 300] \<and>
       fst (deferred_exit exit_l (Some None) (Panicking (Some ''fault'')) 300 st) =
         Panicking (Some ''fault'') \<and>
       callbacks (emitted st (snd (deferred_exit exit_l (Some None) (Panicking (Some ''fault'')) 300 st))) =
         [FuncEnd 9 None True 150, RootSpanEnd 1, ObserverFinish 5 1 None True 300])"
  by (simp add: deferred_exit_def recover_def callbacks_def emitted_def ex_observed_def
      setObserver_def ex_root_def eval_defs)

text \<open>
  C10: the observer that receives the start and the finish notification of a span is
  the one its trace had when \<open>newSpan\<close> read it. The closure that \<open>newSpan\<close>
  returns notifies that observer (or none) in any later state \<open>st2\<close>, whatever
  observer the trace has there.
\<close>

theorem observer_captured_at_start:
  assumes "newSpan c f xs i tr now st = (s, exit_l, st1)"
    and "s < length (spans st2)"
  shows "filter is_observer_call (emitted st st1) =
       (case getObserver st1 (trace (spans st1 ! s)) of Some b \<Rightarrow> [ObserverStart b s] | None \<Rightarrow> []) \<and>
     filter is_observer_call (emitted st2 (snd (exit_l errptr rc fin st2))) =
       (case getObserver st1 (trace (spans st1 ! s)) of
          Some b \<Rightarrow> [ObserverFinish b s (case errptr of None \<Rightarrow> None | Some e \<Rightarrow> e) (rc \<noteq> None) fin]
        | None \<Rightarrow> [])"
proof -
  have s: "s = length (spans st)" using assms(1) newSpan_fst [of c f xs i tr now st] by simp
  have st1: "st1 = snd (snd (newSpan c f xs i tr now st))" using assms(1) by simp
  have ex: "exit_l = exit_span s (start_observer st c tr)"
    using assms(1) newSpan_exit [of c f xs i tr now st] s by simp
  have ob: "getObserver st1 (trace (spans st1 ! s)) = start_observer st c tr"
    unfolding st1 s using newSpan_new_fields [of c f xs i tr now st]
    by (simp add: newSpan_getObserver)
  have e1: "emitted st st1 = start_events c f xs i tr now st"
    unfolding st1 by (simp add: emitted_def newSpan_events)
  have e2: "emitted st2 (snd (exit_l errptr rc fin st2)) =
      finish_events s (start_observer st c tr) errptr rc fin st2"
    unfolding ex using assms(2) by (rule emitted_exit_span)
  show ?thesis
    unfolding ob e1 e2 observer_calls_start_events observer_calls_finish_events
    by (cases "start_observer st c tr") (simp_all add: s)
qed

theorem observer_captured_at_start_witness:
  "getObserver (setObserver 0 (Some 6) (snd (snd (newSpan (SpanCtx (Some 0)) 8 [] 2 None 150 ex_observed)))) 0
     = Some 6 \<and>
   filter is_observer_call
     (emitted (setObserver 0 (Some 6) (snd (snd (newSpan (SpanCtx (Some 0)) 8 [] 2 None 150 ex_observed))))
        (snd (fst (snd (newSpan (SpanCtx (Some 0)) 8 [] 2 None 150 ex_observed)) None None 300
           (setObserver 0 (Some 6) (snd (snd (newSpan (SpanCtx (Some 0)) 8 [] 2 None 150 ex_observed)))))))
     = [ObserverFinish 5 1 None False 300]"
proof -
  obtain s e st1 where h: "newSpan (SpanCtx (Some 0)) 8 [] 2 None 150 ex_observed = (s, e, st1)"
    by (rule prod_cases3)
  have sp: "spans st1 ! 1 = \<lparr>span_id = 2, start = 150, func = 8, trace = 0, parent = Some 0,
     args = [], Context = background, done' = False, orphaned = False, children = [],
     annotations = nil_slice\<rparr>"
    and tr: "traces st1 = [\<lparr>trace_id = 1, observer_of = Some 5\<rparr>]"
    and s: "s = 1" and l: "length (spans st1) = 2"
    using h by (auto simp add: ex_observed_def setObserver_def ex_root_def eval_defs)
  have l2: "s < length (spans (setObserver 0 (Some 6) st1))"
    by (simp add: s l setObserver_def)
  have g: "getObserver st1 (trace (spans st1 ! s)) = Some 5"
    using sp tr by (simp add: s getObserver_def)
  have g2: "getObserver (setObserver 0 (Some 6) st1) 0 = Some 6"
    by (simp add: tr getObserver_def setObserver_def)
  show ?thesis
    using observer_captured_at_start [OF h l2, of None None 300] g g2 h s by simp
qed

text \<open>
  C4: \<open>addChild p c\<close> puts \<open>c\<close> into the child set of \<open>p\<close>, releases the lock
  of \<open>p\<close> and, when \<open>p\<close> was done, calls \<open>orphan\<close> on \<open>c\<close>: a child that is not
  done itself is then orphaned. A span that \<open>newSpan\<close> attaches to a parent that is
  already done is in the parent's child set, is orphaned and is reported once with
  \<open>orphanedSpan\<close>.
\<close>

theorem addChild_orphans_late_child:
  assumes "p < length (spans st)" and "c < length (spans st)"
  shows "c \<in> set (children (spans (addChild p c st) ! p)) \<and>
     emitted st (addChild p c st) =
       [Lock p, Unlock p] @ (if done' (spans st ! p) then orphan_events st c else []) \<and>
     (done' (spans st ! p) \<and> \<not> done' (spans st ! c) \<longrightarrow> orphaned (spans (addChild p c st) ! c)) \<and>
     (\<not> done' (spans st ! p) \<longrightarrow>
        orphaned (spans (addChild p c st) ! c) = orphaned (spans st ! c)) \<and>
     (resolved_parent st cx tr = Some p \<and> done' (spans st ! p) \<longrightarrow>
        parent (spans (snd (snd (newSpan cx f xs i tr now st))) ! length (spans st)) = Some p \<and>
        length (spans st) \<in> set (children (spans (snd (snd (newSpan cx f xs i tr now st))) ! p)) \<and>
        orphaned (spans (snd (snd (newSpan cx f xs i tr now st))) ! length (spans st)) \<and>
        count_list (emitted st (snd (snd (newSpan cx f xs i tr now st))))
          (OrphanedSpan (length (spans st))) = 1)"
proof -
  have m: "c \<in> set (children (spans (addChild p c st) ! p))"
    using spans_addChild_nth [OF assms(1), of p c]
    by (auto simp add: Let_def bag_Add_def)
  have e: "emitted st (addChild p c st) =
       [Lock p, Unlock p] @ (if done' (spans st ! p) then orphan_events st c else [])"
    by (simp add: emitted_def events_addChild)
  have o: "orphaned (spans (addChild p c st) ! c) =
      (orphaned (spans st ! c) \<or> (done' (spans st ! p) \<and> \<not> done' (spans st ! c)))"
    using spans_addChild_nth [OF assms(2), of p c]
    by (auto simp add: Let_def live_def)
  have n: "parent (spans (snd (snd (newSpan cx f xs i tr now st))) ! length (spans st)) = Some p \<and>
        length (spans st) \<in> set (children (spans (snd (snd (newSpan cx f xs i tr now st))) ! p)) \<and>
        orphaned (spans (snd (snd (newSpan cx f xs i tr now st))) ! length (spans st)) \<and>
        count_list (emitted st (snd (snd (newSpan cx f xs i tr now st))))
          (OrphanedSpan (length (spans st))) = 1"
    if rp: "resolved_parent st cx tr = Some p" and d: "done' (spans st ! p)"
  proof -
    have p': "p \<le> length (spans st)" using assms(1) by simp
    have hp: "(spans st @ [new_span cx f xs i tr now st]) ! p = spans st ! p"
      using assms(1) by (simp add: nth_append)
    have n1: "parent (spans (snd (snd (newSpan cx f xs i tr now st))) ! length (spans st)) = Some p"
      using newSpan_new_fields [of cx f xs i tr now st] rp by simp
    have n2: "length (spans st) \<in> set (children (spans (snd (snd (newSpan cx f xs i tr now st))) ! p))"
      using newSpan_spans_nth [OF p', of cx f xs i tr now] assms(1)
      by (simp add: Let_def rp hp bag_Add_def)
    have n3: "orphaned (spans (snd (snd (newSpan cx f xs i tr now st))) ! length (spans st))"
      using newSpan_spans_nth [of "length (spans st)" st cx f xs i tr now] assms(1)
      by (simp add: Let_def rp hp d)
    have n4: "count_list (emitted st (snd (snd (newSpan cx f xs i tr now st))))
          (OrphanedSpan (length (spans st))) = 1"
      unfolding emitted_def newSpan_events start_events_def Let_def rp hp
      by (cases "start_observer st cx tr"; cases "mints st cx tr") (simp_all add: d hp)
    show ?thesis using n1 n2 n3 n4 by simp
  qed
  show ?thesis using m e o n by auto
qed

theorem addChild_orphans_late_child_witness:
  "1 \<in> set (children (spans (addChild 0 1 ex_late) ! 0)) \<and>
   orphaned (spans (addChild 0 1 ex_late) ! 1) \<and>
   callbacks (emitted ex_late (addChild 0 1 ex_late)) = [OrphanedSpan 1] \<and>
   parent (spans (snd (snd (newSpan (SpanCtx (Some 0)) 8 [] 4 None 300 ex_late))) ! 2) = Some 0 \<and>
   orphaned (spans (snd (snd (newSpan (SpanCtx (Some 0)) 8 [] 4 None 300 ex_late))) ! 2) \<and>
   count_list (emitted ex_late (snd (snd (newSpan (SpanCtx (Some 0)) 8 [] 4 None 300 ex_late))))
     (OrphanedSpan 2) = 1"
proof -
  have a1: "0 < length (spans ex_late)" and a2: "1 < length (spans ex_late)"
    and l: "length (spans ex_late) = 2"
    and d0: "done' (spans ex_late ! 0)" and d1: "\<not> done' (spans ex_late ! 1)"
    and lv: "live ex_late 1"
    by (simp_all add: ex_late_val live_def)
  have rp: "resolved_parent ex_late (SpanCtx (Some 0)) None = Some 0"
    by (simp add: resolved_parent_def SpanFromCtx_def)
  note t = addChild_orphans_late_child [OF a1 a2, of "SpanCtx (Some 0)" None 8 "[]" 4 300]
  have e: "emitted ex_late (addChild 0 1 ex_late) = [Lock 0, Unlock 0, Lock 1, OrphanedSpan 1, Unlock 1]"
    using t d0 lv by (simp add: orphan_events_def)
  show ?thesis
    using t d0 d1 rp l e by (simp add: callbacks_def)
qed

text \<open>
  C8: on a span, the lookup of the reserved key returns the span itself (also on a nil
  pointer), and the lookup of any other key is the lookup in the context the span wraps.
  So \<open>SpanFromCtx\<close> of a span is that span, and \<open>SpanFromCtx\<close> of any context
  whose lookup of the reserved key is a span returns that span; the lookup of the
  reserved key always returns.
\<close>

theorem span_carries_itself:
  "Span_Value h s SpanKey = Some (Inr (VSpan s)) \<and>
   (k \<noteq> SpanKey \<longrightarrow> Span_Value h (Some r) k = ctx_Value h (Context (h ! r)) k) \<and>
   ctx_Value h (SpanCtx s) k = Span_Value h s k \<and>
   SpanFromCtx h (SpanCtx s) = s \<and>
   (\<exists>v. ctx_Value h c SpanKey = Some (Inr v)) \<and>
   (ctx_Value h c SpanKey = Some (Inr (VSpan (Some r))) \<longrightarrow> SpanFromCtx h c = Some r)"
  using SpanFromCtx_carried [of h c r]
  by (simp add: Span_Value_def ctx_Value_span SpanFromCtx_span ctx_Value_SpanKey)

theorem span_carries_itself_witness:
  "Span_Value (spans ex_child) (Some 1) SpanKey = Some (Inr (VSpan (Some 1))) \<and>
   Span_Value (spans ex_child) (Some 1) (OtherKey 3) = Some (Inr VNil) \<and>
   SpanFromCtx (spans ex_child) (SpanCtx (Some 1)) = Some 1 \<and>
   SpanFromCtx (spans ex_child) (ex_carrier 1) = Some 1"
proof -
  have c: "Context (spans ex_child ! 1) = background"
    by (simp add: ex_child_val)
  have v: "ctx_Value (spans ex_child) background (OtherKey 3) = Some (Inr VNil)"
    by (simp add: background_def ctx_Value_other)
  have w: "ctx_Value (spans ex_child) (ex_carrier 1) SpanKey = Some (Inr (VSpan (Some 1)))"
    by (simp add: ex_carrier_def ctx_Value_other)
  show ?thesis
    using span_carries_itself [of "spans ex_child" "Some 1" "OtherKey 3" 1 "ex_carrier 1"] c v w
    by simp
qed

text \<open>
  C6: \<open>done\<close> and \<open>orphaned\<close> are monotonic. Whatever operations run (start, the
  finish procedure, \<open>orphan\<close>, \<open>addChild\<close>, \<open>removeChild\<close>, \<open>Annotate\<close>, the accessors that
  take the lock, an observer set on a trace, a caller writing to a slice it was given),
  a span that was done is done afterwards and a span that was orphaned is orphaned
  afterwards. The accessors that only read a field return no state.
\<close>

theorem flags_monotonic:
  assumes "r < length (spans st)"
  shows "r < length (spans (perform op st)) \<and>
     (done' (spans st ! r) \<longrightarrow> done' (spans (perform op st) ! r)) \<and>
     (orphaned (spans st ! r) \<longrightarrow> orphaned (spans (perform op st) ! r)) \<and>
     r < length (spans (run ops st)) \<and>
     (done' (spans st ! r) \<longrightarrow> done' (spans (run ops st) ! r)) \<and>
     (orphaned (spans st ! r) \<longrightarrow> orphaned (spans (run ops st) ! r))"
  using flags_kept_perform [of st op] flags_kept_run [of st ops] assms
  unfolding flags_kept_def by auto

theorem flags_monotonic_witness:
  "0 < length (spans ex_parent_done) \<and> done' (spans ex_parent_done ! 0) \<and>
   done' (spans (run ex_ops ex_parent_done) ! 0) \<and>
   orphaned (spans ex_parent_done ! 1) \<and> orphaned (spans (run ex_ops ex_parent_done) ! 1)"
proof -
  have h0: "0 < length (spans ex_parent_done)" and h1: "1 < length (spans ex_parent_done)"
    and d: "done' (spans ex_parent_done ! 0)" and o: "orphaned (spans ex_parent_done ! 1)"
    by (simp_all add: ex_parent_done_val)
  show ?thesis
    using flags_monotonic [OF h0, of _ ex_ops] flags_monotonic [OF h1, of _ ex_ops] h0 d o
    by simp
qed

text \<open>
  C9, as the code has it: in every operation and every run of operations, no two span
  locks are nested, every lock taken is released, and every call into \<open>Func\<close>, the
  registry or the observer (\<open>f.start\<close>, \<open>f.end\<close>, \<open>observeTrace\<close>, \<open>rootSpanStart\<close>,
  \<open>rootSpanEnd\<close>, \<open>orphanEnd\<close>, the observer's start and finish) and every call of a
  child's \<open>orphan\<close> is made with no span lock held; only \<open>orphanedSpan\<close> is called
  under a lock, that of the span being orphaned.
\<close>

theorem calls_respect_lock_discipline:
  "events (perform op st) = events st @ emitted st (perform op st) \<and>
   lock_discipline (emitted st (perform op st)) \<and>
   events (run ops st) = events st @ emitted st (run ops st) \<and>
   lock_discipline (emitted st (run ops st))"
proof -
  have a: "lock_discipline (emitted st (perform op st))"
    using disciplined_perform [of st op] by (simp add: disciplined_def)
  have b: "lock_discipline (emitted st (run ops st))"
    using disciplined_run [of st ops] by (simp add: disciplined_def)
  show ?thesis
    using a b disciplined_events [OF disciplined_perform [of st op]]
      disciplined_events [OF disciplined_run [of st ops]]
    by blast
qed

text \<open>
  C9 as stated fails: when a parent finishes before its child, \<open>orphan\<close> calls the
  registry's \<open>orphanedSpan\<close> between taking and releasing the child's lock.
\<close>

theorem calls_outside_locks_counterexample:
  "emitted ex_child (snd (exit_span 0 None None None 200 ex_child)) =
     [FuncEnd 7 None False 100, Lock 0, Unlock 0, Lock 1, OrphanedSpan 1, Unlock 1, RootSpanEnd 0] \<and>
   \<not> calls_outside_locks (emitted ex_child (snd (exit_span 0 None None None 200 ex_child)))"
proof -
  have a1: "0 < length (spans ex_child)" by (simp add: ex_child_val)
  have "emitted ex_child (snd (exit_span 0 None None None 200 ex_child)) =
     [FuncEnd 7 None False 100, Lock 0, Unlock 0, Lock 1, OrphanedSpan 1, Unlock 1, RootSpanEnd 0]"
    unfolding emitted_exit_span [OF a1]
    by (simp add: finish_events_def ex_child_val bag_Iterate_def live_def)
  then show ?thesis by (simp add: calls_outside_locks_def)
qed

theorem calls_respect_lock_discipline_witness:
  "lock_discipline (emitted ex_child (perform (OpExit 0 None None None 200) ex_child)) \<and>
   emitted ex_child (perform (OpExit 0 None None None 200) ex_child) =
     [FuncEnd 7 None False 100, Lock 0, Unlock 0, Lock 1, OrphanedSpan 1, Unlock 1, RootSpanEnd 0]"
proof -
  have a1: "0 < length (spans ex_child)" by (simp add: ex_child_val)
  have "emitted ex_child (snd (exit_span 0 None None None 200 ex_child)) =
     [FuncEnd 7 None False 100, Lock 0, Unlock 0, Lock 1, OrphanedSpan 1, Unlock 1, RootSpanEnd 0]"
    unfolding emitted_exit_span [OF a1]
    by (simp add: finish_events_def ex_child_val bag_Iterate_def live_def)
  then show ?thesis
    using calls_respect_lock_discipline [of "OpExit 0 None None None 200" ex_child "[]"]
    by simp
qed

text \<open>
  C7: in every state reached from the empty one, \<open>Annotations\<close> returns a slice with
  the span's annotations at that moment, in an array of its own. Whatever a run does
  afterwards, also writing or appending to the slices that were returned, the
  span's annotations are the earlier ones followed by what \<open>Annotate\<close> has appended to
  the span since, and so is what a later call of \<open>Annotations\<close> returns: the earlier
  result is a prefix of the later one.
\<close>

theorem Annotations_defensive_copy:
  assumes "st = run ops0 init" and "r < length (spans st)"
    and "st1 = step (OpAnnotations r) st"
    and "st2 = run ops st1"
    and "st3 = step (OpAnnotations r) st2"
  shows "last (handed_out st1) = fst (Annotations r st) \<and>
     slice_contents (arrays (snd (Annotations r st))) (fst (Annotations r st)) =
       span_annotations st r \<and>
     slice_contents (arrays st1) (last (handed_out st1)) = span_annotations st r \<and>
     span_annotations st1 r = span_annotations st r \<and>
     span_annotations st2 r = span_annotations st r @ appended r ops \<and>
     slice_contents (arrays st3) (last (handed_out st3)) = span_annotations st r @ appended r ops \<and>
     prefix (slice_contents (arrays st1) (last (handed_out st1)))
            (slice_contents (arrays st3) (last (handed_out st3)))"
proof -
  have ok: "store_ok st"
    unfolding assms(1) using store_run [OF store_ok_init, of ops0] by simp
  have ok1: "store_ok st1"
    unfolding assms(3) using store_step [OF ok] by simp
  have ok2: "store_ok st2"
    unfolding assms(4) using store_run [OF ok1] by simp
  have h1: "handed_out st1 = handed_out st @ [fst (Annotations r st)]"
    and a1: "arrays st1 = arrays (snd (Annotations r st))"
    and s1: "spans st1 = spans st"
    unfolding assms(3) using handed_out_Annotations_step [OF assms(2)] by simp_all
  have r1: "r < length (spans st1)" using assms(2) by (simp add: s1)
  have le: "length (spans st1) \<le> length (spans st2)"
    unfolding assms(4) using flags_kept_run [of st1 ops] by (simp add: flags_kept_def)
  have r2: "r < length (spans st2)" using r1 le by simp
  have h3: "handed_out st3 = handed_out st2 @ [fst (Annotations r st2)]"
    and a3: "arrays st3 = arrays (snd (Annotations r st2))"
    unfolding assms(5) using handed_out_Annotations_step [OF r2] by simp_all
  have c1: "slice_contents (arrays st1) (last (handed_out st1)) = span_annotations st r"
    using Annotations_effect [OF ok assms(2)] by (simp add: h1 a1)
  have c2: "span_annotations st1 r = span_annotations st r"
    using store_step [OF ok, of "OpAnnotations r"] assms(2) by (simp add: assms(3))
  have c3: "span_annotations st2 r = span_annotations st1 r @ appended r ops"
    unfolding assms(4) using store_run [OF ok1, of ops] r1 by simp
  have c4: "slice_contents (arrays st3) (last (handed_out st3)) = span_annotations st2 r"
    using Annotations_effect [OF ok2 r2] by (simp add: h3 a3)
  have c0: "slice_contents (arrays (snd (Annotations r st))) (fst (Annotations r st)) =
       span_annotations st r"
    using Annotations_effect [OF ok assms(2)] by simp
  show ?thesis
    using c0 c1 c2 c3 c4 by (simp add: h1)
qed

theorem Annotations_defensive_copy_witness:
  "0 < length (spans (run ex_ops0 init)) \<and>
   slice_contents (arrays (step (OpAnnotations 0) (run ex_ops0 init)))
       (last (handed_out (step (OpAnnotations 0) (run ex_ops0 init)))) =
     [\<lparr>Name = ''a'', Value = ''1''\<rparr>] \<and>
   slice_contents (arrays (run ex_mutate (step (OpAnnotations 0) (run ex_ops0 init))))
       (last (handed_out (step (OpAnnotations 0) (run ex_ops0 init)))) =
     [\<lparr>Name = ''x'', Value = ''y''\<rparr>] \<and>
   span_annotations (run ex_mutate (step (OpAnnotations 0) (run ex_ops0 init))) 0 =
     [\<lparr>Name = ''a'', Value = ''1''\<rparr>, \<lparr>Name = ''b'', Value = ''2''\<rparr>] \<and>
   slice_contents
       (arrays (step (OpAnnotations 0) (run ex_mutate (step (OpAnnotations 0) (run ex_ops0 init)))))
       (last (handed_out
          (step (OpAnnotations 0) (run ex_mutate (step (OpAnnotations 0) (run ex_ops0 init)))))) =
     [\<lparr>Name = ''a'', Value = ''1''\<rparr>, \<lparr>Name = ''b'', Value = ''2''\<rparr>]"
proof -
  have h: "0 < length (spans (run ex_ops0 init))" by (simp add: ex_ops0_val)
  have a: "span_annotations (run ex_ops0 init) 0 = [\<lparr>Name = ''a'', Value = ''1''\<rparr>]"
    by (simp add: ex_ops0_val span_annotations_def slice_contents_def)
  have b: "appended 0 ex_mutate = [\<lparr>Name = ''b'', Value = ''2''\<rparr>]"
    by (simp add: ex_mutate_def)
  have m: "slice_contents (arrays (run ex_mutate (step (OpAnnotations 0) (run ex_ops0 init))))
       (last (handed_out (step (OpAnnotations 0) (run ex_ops0 init)))) =
     [\<lparr>Name = ''x'', Value = ''y''\<rparr>]"
    unfolding ex_mutate_val by (simp add: ex_copy_val slice_contents_def)
  note t = Annotations_defensive_copy [where ?ops0.0 = ex_ops0 and r = 0 and ops = ex_mutate,
      OF refl h refl refl refl]
  note t2 = t [unfolded a b, THEN conjunct2, THEN conjunct2]
  note t4 = t2 [THEN conjunct2, THEN conjunct2]
  show ?thesis
    using h m t2 [THEN conjunct1] t4 [THEN conjunct1] t4 [THEN conjunct2, THEN conjunct1]
    by simp
qed

end
